theory Spec2Isabelle
  imports Main "HOL-Library.AList"
begin

section \<open>The Isla interpreter (src/src/interpreter.js)\<close>

text \<open>
  The interpreter walks a parsed syntax tree and mutates a context object. Everything the
  JavaScript does through shared, mutable objects is made explicit here: plain objects and
  Isla lists live in a heap and are referred to by address, and every function takes the
  state and returns the new one.
\<close>

subsection \<open>Values and the heap\<close>

type_synonym addr = nat

text \<open>
  A JavaScript value as the interpreter meets it. \<open>Arr a b\<close> is the two-element array
  \<open>[objId, attrId]\<close> that \<open>evaluateValue\<close> builds for an object attribute; \<open>Obj\<close> points
  to a plain object (a context slot's object, a type instance, or a \<open>{ref: ...}\<close> wrapper,
  which is a plain object with a \<open>ref\<close> property); \<open>Lst\<close> points to an \<open>IslaList\<close>;
  \<open>Fn\<close> is a function of the library, known by its number.
\<close>

datatype jsval =
    Undefined
  | Null
  | Num int
  | Str string
  | Arr string string
  | Obj addr
  | Lst addr
  | Fn nat

text \<open>The own properties of an object, in insertion order (the order of \<open>for ... in\<close>).\<close>

type_synonym props = "(string \<times> jsval) list"

record islalist =
  items :: "jsval list"
  lprops :: props

text \<open>
  The environment \<open>{ctx, ret}\<close> together with the heap it points into. The context is
  one object, mutated in place by every assignment.
\<close>

record env =
  ctx :: props
  ret :: jsval
  objs :: "props list"
  lists :: "islalist list"

text \<open>
  What can be thrown: \<open>Error\<close> is the interpreter's own \<open>throw Error(message)\<close>,
  \<open>TypeError\<close> is the host's (a property of \<open>undefined\<close> or \<open>null\<close>, a call of
  something that is not a function), \<open>LibraryError\<close> is whatever a library function
  throws, with its message.
\<close>

datatype error =
    Error string
  | TypeError
  | LibraryError string

text \<open>A thrown exception carries the state at the moment of the throw.\<close>

type_synonym 'a outcome = "(error \<times> env) + 'a"

text \<open>A call into the library returns, throws, or never comes back (\<open>None\<close>).\<close>

type_synonym 'a libcall = "((string \<times> env) + 'a) option"

text \<open>
  What the interpreter takes from the library (\<open>Isla.Library\<close>, not part of this file):
  the behaviour of a function value when it is called as \<open>fn(env, param)\<close>, as a type
  constructor \<open>typeFn()\<close> and as a method \<open>list[operation](item)\<close>, the operations of
  \<open>IslaList\<close> other than \<open>add\<close>, the text a function prints as, and the initial
  environment.
\<close>

record lib =
  callFn :: "nat \<Rightarrow> env \<Rightarrow> jsval \<Rightarrow> (jsval \<times> env) libcall"
  construct :: "nat \<Rightarrow> env \<Rightarrow> (jsval \<times> env) libcall"
  callMethod :: "nat \<Rightarrow> jsval \<Rightarrow> jsval \<Rightarrow> env \<Rightarrow> env libcall"
  listOps :: "string \<Rightarrow> (jsval \<Rightarrow> jsval list \<Rightarrow> jsval list) option"
  fnText :: "nat \<Rightarrow> string"
  getInitialEnv :: env

text \<open>\<open>o[k]\<close> on the own properties: a missing property reads as \<open>undefined\<close>.\<close>

definition getProp :: "props \<Rightarrow> string \<Rightarrow> jsval" where
  "getProp ps k = (case map_of ps k of None \<Rightarrow> Undefined | Some v \<Rightarrow> v)"

definition objAt :: "env \<Rightarrow> addr \<Rightarrow> props" where
  "objAt e a = (if a < length (objs e) then objs e ! a else [])"

definition listAt :: "env \<Rightarrow> addr \<Rightarrow> islalist" where
  "listAt e a = (if a < length (lists e) then lists e ! a else \<lparr>items = [], lprops = []\<rparr>)"

text \<open>An object literal \<open>{...}\<close> and \<open>new Isla.Library.IslaList()\<close> allocate.\<close>

definition allocObj :: "props \<Rightarrow> env \<Rightarrow> addr \<times> env" where
  "allocObj ps e = (length (objs e), e\<lparr>objs := objs e @ [ps]\<rparr>)"

definition allocList :: "env \<Rightarrow> addr \<times> env" where
  "allocList e = (length (lists e), e\<lparr>lists := lists e @ [\<lparr>items = [], lprops = []\<rparr>]\<rparr>)"

definition setAttr :: "addr \<Rightarrow> string \<Rightarrow> jsval \<Rightarrow> env \<Rightarrow> env" where
  "setAttr a k v e = e\<lparr>objs := (objs e)[a := AList.update k v (objAt e a)]\<rparr>"

definition setItems :: "addr \<Rightarrow> jsval list \<Rightarrow> env \<Rightarrow> env" where
  "setItems a xs e = e\<lparr>lists := (lists e)[a := (listAt e a)\<lparr>items := xs\<rparr>]\<rparr>"

text \<open>
  \<open>base[k]\<close> for any value: reading a property of \<open>undefined\<close> or \<open>null\<close> throws a
  TypeError; numbers, strings, arrays and functions have no own property that the
  interpreter reads (members inherited from the built-in prototypes are outside the
  model).
\<close>

fun getMember :: "env \<Rightarrow> jsval \<Rightarrow> string \<Rightarrow> jsval outcome" where
  "getMember e Undefined k = Inl (TypeError, e)"
| "getMember e Null k = Inl (TypeError, e)"
| "getMember e (Obj a) k = Inr (getProp (objAt e a) k)"
| "getMember e (Lst a) k = Inr (getProp (lprops (listAt e a)) k)"
| "getMember e v k = Inr Undefined"

text \<open>
  \<open>base[k] = v\<close>. The file is not in strict mode, so a write to a property of a number
  or a string is dropped silently; on \<open>undefined\<close> or \<open>null\<close> it throws.
\<close>

fun setMember :: "env \<Rightarrow> jsval \<Rightarrow> string \<Rightarrow> jsval \<Rightarrow> env outcome" where
  "setMember e Undefined k v = Inl (TypeError, e)"
| "setMember e Null k v = Inl (TypeError, e)"
| "setMember e (Obj a) k v = Inr (setAttr a k v e)"
| "setMember e (Lst a) k v =
     Inr (e\<lparr>lists := (lists e)[a := (listAt e a)\<lparr>lprops := AList.update k v (lprops (listAt e a))\<rparr>]\<rparr>)"
| "setMember e b k v = Inr e"

subsection \<open>Property keys\<close>

text \<open>
  \<open>env.ctx[thing.ref]\<close> turns \<open>thing.ref\<close> into a property key: a string is itself, an
  array \<open>[a, b]\<close> is \<open>a,b\<close>, a number is printed in decimal.
\<close>

function digits :: "nat \<Rightarrow> string" where
  "digits n = (if n < 10 then [''0123456789'' ! n] else digits (n div 10) @ [''0123456789'' ! (n mod 10)])"
  by pat_completeness auto
termination
  by (relation "measure id") auto

declare digits.simps [simp del]

definition showInt :: "int \<Rightarrow> string" where
  "showInt i = (if i < 0 then CHR ''-'' # digits (nat (- i)) else digits (nat i))"

fun toString :: "lib \<Rightarrow> jsval \<Rightarrow> string" where
  "toString L Undefined = ''undefined''"
| "toString L Null = ''null''"
| "toString L (Num i) = showInt i"
| "toString L (Str s) = s"
| "toString L (Arr a b) = a @ '','' @ b"
| "toString L (Obj a) = ''[object Object]''"
| "toString L (Lst a) = ''[object Object]''"
| "toString L (Fn k) = fnText L k"

subsection \<open>Syntax trees\<close>

text \<open>
  The parser's tagged nodes, one constructor per tag the interpreter dispatches on, with
  the children that \<open>Isla.Parser.extract\<close> picks. A \<open>variable\<close> node holds a \<open>scalar\<close>
  (one identifier) or an \<open>object\<close> (object and attribute identifiers); an \<open>assignee\<close> holds
  the same two kinds.
\<close>

datatype variable =
    Scalar string
  | Object string string

datatype literal =
    Integer int
  | String string

datatype valnode =
    Literal literal
  | Variable variable

datatype ast =
    Root "ast list"
  | Block "ast list"
  | Expression ast
  | ValueAssignment variable valnode
  | TypeAssignment variable string
  | ListAssignment string valnode variable
  | Invocation string valnode

subsection \<open>evaluateValue\<close>

record evalres =
  ref :: jsval
  val :: jsval

text \<open>The \<open>scalar\<close> and \<open>object\<close> cases of \<open>evaluateValue\<close>.\<close>

fun evaluateVariable :: "variable \<Rightarrow> env \<Rightarrow> evalres outcome" where
  "evaluateVariable (Scalar identifier) e =
     Inr \<lparr>ref = Str identifier, val = getProp (ctx e) identifier\<rparr>"
| "evaluateVariable (Object objId attrId) e =
     (if getProp (ctx e) objId \<noteq> Undefined
      then (case getMember e (getProp (ctx e) objId) attrId of
              Inl t \<Rightarrow> Inl t
            | Inr v \<Rightarrow> Inr \<lparr>ref = Arr objId attrId, val = v\<rparr>)
      else Inr \<lparr>ref = Arr objId attrId, val = Undefined\<rparr>)"

text \<open>The \<open>literal\<close> and \<open>variable\<close> cases; a literal has no \<open>ref\<close>.\<close>

fun evaluateValue :: "valnode \<Rightarrow> env \<Rightarrow> evalres outcome" where
  "evaluateValue (Literal (Integer i)) e = Inr \<lparr>ref = Undefined, val = Num i\<rparr>"
| "evaluateValue (Literal (String s)) e = Inr \<lparr>ref = Undefined, val = Str s\<rparr>"
| "evaluateValue (Variable v) e = evaluateVariable v e"

subsection \<open>assign\<close>

fun assign :: "env \<Rightarrow> variable \<Rightarrow> jsval \<Rightarrow> env outcome" where
  "assign e (Scalar identifier) v = Inr (e\<lparr>ctx := AList.update identifier v (ctx e)\<rparr>)"
| "assign e (Object objectIdentifier slotIdentifier) v =
     setMember e (getProp (ctx e) objectIdentifier) slotIdentifier v"

subsection \<open>resolve\<close>

text \<open>
  \<open>resolve\<close> recurses through references, attributes and list items without any check
  for cycles, so it need not return. The first argument after the library bounds the depth
  of the recursion; \<open>None\<close> says that the bound was reached.
\<close>

fun resolve :: "lib \<Rightarrow> nat \<Rightarrow> jsval \<Rightarrow> env \<Rightarrow> (jsval \<times> env) option"
  and resolveAttrs :: "lib \<Rightarrow> nat \<Rightarrow> addr \<Rightarrow> string list \<Rightarrow> env \<Rightarrow> env option"
  and resolveItems :: "lib \<Rightarrow> nat \<Rightarrow> addr \<Rightarrow> jsval list \<Rightarrow> env \<Rightarrow> env option"
where
  "resolve L 0 thing e = None"
| "resolve L (Suc n) (Lst a) e =
     (case allocList e of (resolvedList, e1) \<Rightarrow>
        (case resolveItems L n resolvedList (items (listAt e a)) e1 of
           None \<Rightarrow> None
         | Some e2 \<Rightarrow> Some (Lst resolvedList, e2)))"
| "resolve L (Suc n) (Obj a) e =
     (if getProp (objAt e a) ''ref'' = Undefined
      then (case resolveAttrs L n a (map fst (objAt e a)) e of
              None \<Rightarrow> None
            | Some e1 \<Rightarrow> Some (Obj a, e1))
      else resolve L n (getProp (ctx e) (toString L (getProp (objAt e a) ''ref''))) e)"
| "resolve L (Suc n) Undefined e = Some (Undefined, e)"
| "resolve L (Suc n) Null e = Some (Null, e)"
| "resolve L (Suc n) (Num i) e = Some (Num i, e)"
| "resolve L (Suc n) (Str s) e = Some (Str s, e)"
| "resolve L (Suc n) (Arr a b) e = Some (Arr a b, e)"
| "resolve L (Suc n) (Fn k) e = Some (Fn k, e)"
| "resolveAttrs L n a [] e = Some e"
| "resolveAttrs L n a (i # rest) e =
     (if i \<noteq> ''_meta''
      then (case resolve L n (getProp (objAt e a) i) e of
              None \<Rightarrow> None
            | Some (r, e1) \<Rightarrow> resolveAttrs L n a rest (setAttr a i r e1))
      else resolveAttrs L n a rest e)"
| "resolveItems L n resolvedList [] e = Some e"
| "resolveItems L n resolvedList (item # rest) e =
     (case resolve L n item e of
        None \<Rightarrow> None
      | Some (r, e1) \<Rightarrow>
          resolveItems L n resolvedList rest
            (setItems resolvedList (items (listAt e1 resolvedList) @ [r]) e1))"

subsection \<open>instantiateType, rmRet, nreturn\<close>

fun instantiateType :: "lib \<Rightarrow> jsval \<Rightarrow> string \<Rightarrow> env \<Rightarrow> (jsval \<times> env) outcome option" where
  "instantiateType L (Fn k) identifier e =
     (case construct L k e of
        None \<Rightarrow> None
      | Some (Inl (m, e1)) \<Rightarrow> Some (Inl (LibraryError m, e1))
      | Some (Inr (v, e1)) \<Rightarrow>
          (case allocObj [(''type'', Str identifier)] e1 of (m, e2) \<Rightarrow>
             (case setMember e2 v ''_meta'' (Obj m) of
                Inl t \<Rightarrow> Some (Inl t)
              | Inr e3 \<Rightarrow> Some (Inr (v, e3)))))"
| "instantiateType L typeFn identifier e = Some (Inl (TypeError, e))"

definition rmRet :: "env \<Rightarrow> env" where
  "rmRet e = e\<lparr>ret := Null\<rparr>"

text \<open>\<open>nreturn(ctx, ret)\<close>; the one-argument call \<open>nreturn(ctx)\<close> passes \<open>undefined\<close>.\<close>

definition nreturn :: "env \<Rightarrow> jsval \<Rightarrow> env" where
  "nreturn e r = (if r = Undefined then e\<lparr>ret := Null\<rparr> else e\<lparr>ret := r\<rparr>)"

subsection \<open>interpretAst and runSequence\<close>

text \<open>
  \<open>valueNode.ref === undefined ? valueNode.val : { ref: valueNode.ref }\<close>, the expression
  that \<open>value_assignment\<close> and \<open>list_assignment\<close> both use: the wrapper is a new object.
\<close>

definition refOrVal :: "evalres \<Rightarrow> env \<Rightarrow> jsval \<times> env" where
  "refOrVal r e =
     (if ref r = Undefined then (val r, e)
      else (case allocObj [(''ref'', ref r)] e of (w, e1) \<Rightarrow> (Obj w, e1)))"

text \<open>
  The methods of \<open>IslaList\<close>. Modelled from the spec: the class \<open>IslaList\<close> is in the
  library, not in this file; the spec says that \<open>resolve\<close> appends each resolved item with
  \<open>add\<close>, keeping the order. The other operations come from the library.
\<close>

definition listMethod :: "lib \<Rightarrow> string \<Rightarrow> (jsval \<Rightarrow> jsval list \<Rightarrow> jsval list) option" where
  "listMethod L operation =
     (if operation = ''add'' then Some (\<lambda>item xs. xs @ [item]) else listOps L operation)"

text \<open>\<open>list[operation](item)\<close>: calling something that is not a function is a TypeError.\<close>

definition invokeOperation :: "lib \<Rightarrow> jsval \<Rightarrow> string \<Rightarrow> jsval \<Rightarrow> env \<Rightarrow> env outcome option" where
  "invokeOperation L list operation item e =
     (case (case list of Lst a \<Rightarrow> map_option (Pair a) (listMethod L operation) | _ \<Rightarrow> None) of
        Some (a, f) \<Rightarrow> Some (Inr (setItems a (f item (items (listAt e a))) e))
      | None \<Rightarrow>
          (case getMember e list operation of
             Inl t \<Rightarrow> Some (Inl t)
           | Inr (Fn k) \<Rightarrow>
               (case callMethod L k list item e of
                  None \<Rightarrow> None
                | Some (Inl (m, e1)) \<Rightarrow> Some (Inl (LibraryError m, e1))
                | Some (Inr e1) \<Rightarrow> Some (Inr e1))
           | Inr _ \<Rightarrow> Some (Inl (TypeError, e))))"

definition noSuchList :: "lib \<Rightarrow> jsval \<Rightarrow> string" where
  "noSuchList L r =
     ''I do not know of a list called ''
       @ (case r of Arr a b \<Rightarrow> a @ '' '' @ b | _ \<Rightarrow> toString L r)
       @ ''.''"

fun interpretAst :: "lib \<Rightarrow> nat \<Rightarrow> ast \<Rightarrow> env \<Rightarrow> env outcome option"
  and runSequence :: "lib \<Rightarrow> nat \<Rightarrow> ast list \<Rightarrow> env \<Rightarrow> env outcome option"
where
  "interpretAst L n (Root c) e = runSequence L n c e"
| "interpretAst L n (Block c) e = runSequence L n c e"
| "interpretAst L n (Expression c) e = interpretAst L n c e"
| "interpretAst L n (ValueAssignment assignee node) e =
     (case evaluateValue node e of
        Inl t \<Rightarrow> Some (Inl t)
      | Inr valueNode \<Rightarrow>
          (case refOrVal valueNode e of (v, e1) \<Rightarrow>
             (case assign e1 assignee v of
                Inl t \<Rightarrow> Some (Inl t)
              | Inr e2 \<Rightarrow> Some (Inr (nreturn e2 Undefined)))))"
| "interpretAst L n (TypeAssignment assignee typeIdentifier) e =
     (case getMember e (getProp (ctx e) ''types'') typeIdentifier of
        Inl t \<Rightarrow> Some (Inl t)
      | Inr f \<Rightarrow>
          (case (if f = Undefined then getMember e (getProp (ctx e) ''types'') ''generic''
                 else Inr f) of
             Inl t \<Rightarrow> Some (Inl t)
           | Inr typeFn \<Rightarrow>
               (case instantiateType L typeFn typeIdentifier e of
                  None \<Rightarrow> None
                | Some (Inl t) \<Rightarrow> Some (Inl t)
                | Some (Inr (v, e1)) \<Rightarrow>
                    (case assign e1 assignee v of
                       Inl t \<Rightarrow> Some (Inl t)
                     | Inr e2 \<Rightarrow> Some (Inr (nreturn e2 Undefined))))))"
| "interpretAst L n (ListAssignment operation node assignee) e =
     (case evaluateVariable assignee e of
        Inl t \<Rightarrow> Some (Inl t)
      | Inr currentListEval \<Rightarrow>
          if val currentListEval = Undefined
          then Some (Inl (Error (noSuchList L (ref currentListEval)), e))
          else (case evaluateValue node e of
                  Inl t \<Rightarrow> Some (Inl t)
                | Inr itemEval \<Rightarrow>
                    (case refOrVal itemEval e of (item, e1) \<Rightarrow>
                       (case invokeOperation L (val currentListEval) operation item e1 of
                          None \<Rightarrow> None
                        | Some (Inl t) \<Rightarrow> Some (Inl t)
                        | Some (Inr e2) \<Rightarrow>
                            (case assign e2 assignee (val currentListEval) of
                               Inl t \<Rightarrow> Some (Inl t)
                             | Inr e3 \<Rightarrow> Some (Inr (nreturn e3 Undefined)))))))"
| "interpretAst L n (Invocation callee node) e =
     (case allocObj [(''ref'', Str callee)] e of (w, e1) \<Rightarrow>
        (case resolve L n (Obj w) e1 of
           None \<Rightarrow> None
         | Some (fn, e2) \<Rightarrow>
             (case evaluateValue node e2 of
                Inl t \<Rightarrow> Some (Inl t)
              | Inr param \<Rightarrow>
                  (case fn of
                     Fn k \<Rightarrow>
                       (case callFn L k e2 (val param) of
                          None \<Rightarrow> None
                        | Some (Inl (m, e3)) \<Rightarrow> Some (Inl (LibraryError m, e3))
                        | Some (Inr (returnVal, e3)) \<Rightarrow> Some (Inr (nreturn e3 returnVal)))
                   | _ \<Rightarrow> Some (Inl (TypeError, e2))))))"
| "runSequence L n [] e = Some (Inr e)"
| "runSequence L n (node # rest) e =
     (case interpretAst L n node (rmRet e) of
        None \<Rightarrow> None
      | Some (Inl t) \<Rightarrow> Some (Inl t)
      | Some (Inr e1) \<Rightarrow> runSequence L n rest e1)"

text \<open>The \<open>root\<close> node called without an environment takes the library's initial one.\<close>

definition interpretRoot :: "lib \<Rightarrow> nat \<Rightarrow> ast list \<Rightarrow> env option \<Rightarrow> env outcome option" where
  "interpretRoot L n c envArg =
     interpretAst L n (Root c) (case envArg of None \<Rightarrow> getInitialEnv L | Some e \<Rightarrow> e)"

subsection \<open>What a slot holds, what a reference is\<close>

text \<open>
  The binding that a scalar name or an object attribute currently holds (\<open>undefined\<close> when
  the read itself fails), and whether an assignment to it has something to write to: a
  scalar always, an attribute only when its object is bound to an object or a list.
\<close>

definition slot :: "env \<Rightarrow> variable \<Rightarrow> jsval" where
  "slot e v = (case evaluateVariable v e of Inl t \<Rightarrow> Undefined | Inr r \<Rightarrow> val r)"

fun writable :: "env \<Rightarrow> variable \<Rightarrow> bool" where
  "writable e (Scalar identifier) = True"
| "writable e (Object objectIdentifier slotIdentifier) =
     (case getProp (ctx e) objectIdentifier of
        Obj b \<Rightarrow> b < length (objs e)
      | Lst b \<Rightarrow> b < length (lists e)
      | _ \<Rightarrow> False)"

text \<open>
  \<open>resolve\<close> takes a plain object with a \<open>ref\<close> property for a reference, and looks the
  property up in the context.
\<close>

definition isRef :: "env \<Rightarrow> jsval \<Rightarrow> bool" where
  "isRef e thing = (case thing of Obj a \<Rightarrow> getProp (objAt e a) ''ref'' \<noteq> Undefined | _ \<Rightarrow> False)"

definition referent :: "lib \<Rightarrow> env \<Rightarrow> jsval \<Rightarrow> jsval" where
  "referent L e thing =
     (case thing of
        Obj a \<Rightarrow> getProp (ctx e) (toString L (getProp (objAt e a) ''ref''))
      | _ \<Rightarrow> Undefined)"

text \<open>
  A chain of slots: \<open>k\<close> holds a reference to the first name of the list, which holds a
  reference to the next, and so on.
\<close>

fun refChain :: "env \<Rightarrow> string \<Rightarrow> string list \<Rightarrow> bool" where
  "refChain e k [] = True"
| "refChain e k (k' # ks) =
     ((case getProp (ctx e) k of
         Obj w \<Rightarrow> getProp (objAt e w) ''ref'' = Str k'
       | _ \<Rightarrow> False)
      \<and> refChain e k' ks)"

text \<open>
  \<open>value._meta.type\<close>, the type tag that \<open>instantiateType\<close> sets.
\<close>

definition metaType :: "env \<Rightarrow> jsval \<Rightarrow> jsval" where
  "metaType e v =
     (case getMember e v ''_meta'' of
        Inl t \<Rightarrow> Undefined
      | Inr m \<Rightarrow> (case getMember e m ''type'' of Inl t \<Rightarrow> Undefined | Inr ty \<Rightarrow> ty))"

subsection \<open>The shape of a resolved value\<close>

text \<open>
  A resolved value read as a tree: a list is a node over its items, anything else is a
  leaf (an object is the leaf of its address: two lists hold the same object when they hold
  the same address). Two values have equal contents when they have the same tree.
\<close>

datatype tree = Leaf jsval | Node "tree list"

fun hasShape :: "env \<Rightarrow> jsval \<Rightarrow> tree \<Rightarrow> bool"
  and hasShapes :: "env \<Rightarrow> jsval list \<Rightarrow> tree list \<Rightarrow> bool"
where
  "hasShape e v (Leaf w) = (v = w \<and> (case v of Lst c \<Rightarrow> False | _ \<Rightarrow> True))"
| "hasShape e v (Node ts) = (case v of Lst c \<Rightarrow> hasShapes e (items (listAt e c)) ts | _ \<Rightarrow> False)"
| "hasShapes e [] [] = True"
| "hasShapes e (v # vs) (t # ts) = (hasShape e v t \<and> hasShapes e vs ts)"
| "hasShapes e [] (t # ts) = False"
| "hasShapes e (v # vs) [] = False"

text \<open>
  The resolved form that \<open>resolve\<close> is to return for a value, read off the state without
  changing it: a scalar and a plain object are themselves, a reference has the resolved form
  of what its slot holds, and a list has the resolved forms of its items, in order.
\<close>

inductive resolvedForm :: "lib \<Rightarrow> env \<Rightarrow> jsval \<Rightarrow> tree \<Rightarrow> bool"
  and resolvedForms :: "lib \<Rightarrow> env \<Rightarrow> jsval list \<Rightarrow> tree list \<Rightarrow> bool"
  for L :: lib and e :: env
where
  scalar: "(case v of Obj a \<Rightarrow> False | Lst a \<Rightarrow> False | _ \<Rightarrow> True) \<Longrightarrow> resolvedForm L e v (Leaf v)"
| object: "getProp (objAt e a) ''ref'' = Undefined \<Longrightarrow> resolvedForm L e (Obj a) (Leaf (Obj a))"
| reference:
    "getProp (objAt e a) ''ref'' \<noteq> Undefined \<Longrightarrow>
     resolvedForm L e (getProp (ctx e) (toString L (getProp (objAt e a) ''ref''))) t \<Longrightarrow>
     resolvedForm L e (Obj a) t"
| list:
    "a < length (lists e) \<Longrightarrow> resolvedForms L e (items (listAt e a)) ts \<Longrightarrow>
     resolvedForm L e (Lst a) (Node ts)"
| none: "resolvedForms L e [] []"
| more: "resolvedForm L e v t \<Longrightarrow> resolvedForms L e vs ts \<Longrightarrow> resolvedForms L e (v # vs) (t # ts)"

code_pred resolvedForm .

text \<open>
  A list address is allocated when it is below the number of lists of the heap; a state is
  closed when the context and the items of its lists hold no other list address.
\<close>

definition allocated :: "env \<Rightarrow> jsval \<Rightarrow> bool" where
  "allocated e v = (case v of Lst b \<Rightarrow> b < length (lists e) | _ \<Rightarrow> True)"

definition closed :: "env \<Rightarrow> bool" where
  "closed e =
     (list_all (\<lambda>kv. allocated e (snd kv)) (ctx e)
      \<and> list_all (\<lambda>l. list_all (allocated e) (items l)) (lists e))"

text \<open>
  A state has no cycle when its addresses can be ranked: every list ranks above its items,
  every plain object above its attributes (the type tag apart), and every reference above
  what its slot holds. \<open>ro\<close> ranks the objects and \<open>rl\<close> the lists; a scalar has rank 0. A
  ranked state holds no list address that is not allocated, in the places \<open>resolve\<close> reads.
\<close>

definition rankOf :: "(addr \<Rightarrow> nat) \<Rightarrow> (addr \<Rightarrow> nat) \<Rightarrow> jsval \<Rightarrow> nat" where
  "rankOf ro rl v = (case v of Obj a \<Rightarrow> ro a | Lst a \<Rightarrow> rl a | _ \<Rightarrow> 0)"

definition below :: "env \<Rightarrow> (addr \<Rightarrow> nat) \<Rightarrow> (addr \<Rightarrow> nat) \<Rightarrow> nat \<Rightarrow> jsval \<Rightarrow> bool" where
  "below e ro rl bound v = (allocated e v \<and> rankOf ro rl v < bound)"

definition ranked :: "lib \<Rightarrow> (addr \<Rightarrow> nat) \<Rightarrow> (addr \<Rightarrow> nat) \<Rightarrow> env \<Rightarrow> bool" where
  "ranked L ro rl e =
     (list_all (\<lambda>kv. allocated e (snd kv)) (ctx e)
      \<and> (\<forall>c < length (lists e). list_all (below e ro rl (rl c)) (items (lists e ! c)))
      \<and> (\<forall>a < length (objs e).
            if getProp (objs e ! a) ''ref'' = Undefined
            then 0 < ro a
              \<and> list_all (\<lambda>kv. fst kv = ''_meta'' \<or> below e ro rl (ro a) (getProp (objs e ! a) (fst kv)))
                   (objs e ! a)
            else rankOf ro rl (getProp (ctx e) (toString L (getProp (objs e ! a) ''ref''))) < ro a))"

text \<open>
  What a run of \<open>resolve\<close> leaves alone: the context, \<open>ret\<close>, the number of objects, the
  \<open>ref\<close> property of every object, and the lists that were there (those that \<open>keep\<close>
  selects); the heap of lists only grows. Two states agree on a range of list addresses
  when they hold the same lists there.
\<close>

definition frame :: "(addr \<Rightarrow> bool) \<Rightarrow> env \<Rightarrow> env \<Rightarrow> bool" where
  "frame keep e e' =
     (ctx e' = ctx e \<and> ret e' = ret e \<and> length (objs e') = length (objs e)
      \<and> (\<forall>a. getProp (objAt e' a) ''ref'' = getProp (objAt e a) ''ref'')
      \<and> length (lists e) \<le> length (lists e')
      \<and> (\<forall>b < length (lists e). keep b \<longrightarrow> lists e' ! b = lists e ! b))"

definition agree :: "env \<Rightarrow> env \<Rightarrow> nat \<Rightarrow> nat \<Rightarrow> bool" where
  "agree u s lo hi = (\<forall>b. lo \<le> b \<and> b < hi \<longrightarrow> listAt u b = listAt s b)"

subsection \<open>A small library, environments and programs to run\<close>

definition sampleEnv :: env where
  "sampleEnv = \<lparr>ctx = [], ret = Null, objs = [], lists = []\<rparr>"

text \<open>
  Every function returns \<open>undefined\<close> when called and throws when used as a method. Used
  as a constructor, function 1 builds an empty list and every other function an empty
  object. Lists have no operation besides \<open>add\<close>.
\<close>

definition sampleLib :: lib where
  "sampleLib =
     \<lparr>callFn = (\<lambda>k e p. Some (Inr (Undefined, e))),
      construct = (\<lambda>k e. if k = 1 then (case allocList e of (a, e1) \<Rightarrow> Some (Inr (Lst a, e1)))
                           else (case allocObj [] e of (a, e1) \<Rightarrow> Some (Inr (Obj a, e1)))),
      callMethod = (\<lambda>k this item e. Some (Inl (''not a method'', e))),
      listOps = (\<lambda>operation. None),
      fnText = (\<lambda>k. ''function () {}''),
      getInitialEnv = sampleEnv\<rparr>"

text \<open>
  The same library, but every function returns its argument.
\<close>

definition echoLib :: lib where
  "echoLib = sampleLib\<lparr>callFn := (\<lambda>k e p. Some (Inr (p, e)))\<rparr>"

text \<open>
  The program \<open>x is 5  y is x\<close>, and the same followed by \<open>z is y\<close>.
\<close>

definition copyProgram :: ast where
  "copyProgram = Root
     [Expression (ValueAssignment (Scalar ''x'') (Literal (Integer 5))),
      Expression (ValueAssignment (Scalar ''y'') (Variable (Scalar ''x'')))]"

definition chainProgram :: ast where
  "chainProgram = Root
     [Expression (ValueAssignment (Scalar ''x'') (Literal (Integer 5))),
      Expression (ValueAssignment (Scalar ''y'') (Variable (Scalar ''x''))),
      Expression (ValueAssignment (Scalar ''z'') (Variable (Scalar ''y'')))]"

text \<open>
  \<open>a\<close> holds a list and \<open>x\<close> a reference to \<open>a\<close>.
\<close>

definition aliasEnv :: env where
  "aliasEnv = \<lparr>ctx = [(''a'', Lst 0), (''x'', Obj 0)], ret = Null,
                objs = [[(''ref'', Str ''a'')]], lists = [\<lparr>items = [Num 1], lprops = []\<rparr>]\<rparr>"

text \<open>
  A list that holds a number, a reference to \<open>x\<close> and another list; the same state after
  one and after two runs of \<open>resolve\<close> on it.
\<close>

definition nestedEnv :: env where
  "nestedEnv = \<lparr>ctx = [(''x'', Num 5), (''l'', Lst 0)], ret = Null,
      objs = [[(''ref'', Str ''x'')]],
      lists = [\<lparr>items = [Num 1, Obj 0, Lst 1], lprops = []\<rparr>, \<lparr>items = [Str ''s''], lprops = []\<rparr>]\<rparr>"

definition nestedOnce :: env where
  "nestedOnce = nestedEnv\<lparr>lists := lists nestedEnv @
      [\<lparr>items = [Num 1, Num 5, Lst 3], lprops = []\<rparr>, \<lparr>items = [Str ''s''], lprops = []\<rparr>]\<rparr>"

definition nestedTwice :: env where
  "nestedTwice = nestedOnce\<lparr>lists := lists nestedOnce @
      [\<lparr>items = [Num 1, Num 5, Lst 5], lprops = []\<rparr>, \<lparr>items = [Str ''s''], lprops = []\<rparr>]\<rparr>"

text \<open>
  An environment with a \<open>types\<close> table, the program \<open>x is a list  add x to x\<close>, and the
  state it leaves: the list of \<open>x\<close> holds a reference to \<open>x\<close>.
\<close>

definition typesEnv :: env where
  "typesEnv = \<lparr>ctx = [(''types'', Obj 0)], ret = Null,
      objs = [[(''list'', Fn 1), (''generic'', Fn 0)]], lists = []\<rparr>"

definition selfProgram :: ast where
  "selfProgram = Root
     [Expression (TypeAssignment (Scalar ''x'') ''list''),
      Expression (ListAssignment ''add'' (Variable (Scalar ''x'')) (Scalar ''x''))]"

definition selfEnv :: env where
  "selfEnv = \<lparr>ctx = [(''types'', Obj 0), (''x'', Lst 0)], ret = Null,
      objs = [[(''list'', Fn 1), (''generic'', Fn 0)], [(''type'', Str ''list'')],
              [(''ref'', Str ''x'')]],
      lists = [\<lparr>items = [Obj 2], lprops = [(''_meta'', Obj 1)]\<rparr>]\<rparr>"

text \<open>
  \<open>l\<close> holds a list and \<open>x\<close> a number.
\<close>

definition listEnv :: env where
  "listEnv = \<lparr>ctx = [(''l'', Lst 0), (''x'', Num 5)], ret = Null, objs = [],
               lists = [\<lparr>items = [Num 1], lprops = []\<rparr>]\<rparr>"

section \<open>Properties\<close>

subsection \<open>Reading properties and the heap\<close>

lemma getProp_update [simp]:
  "getProp (AList.update k v ps) k' = (if k' = k then v else getProp ps k')"
  by (simp add: getProp_def update_conv')

lemma getProp_Nil [simp]: "getProp [] k = Undefined"
  by (simp add: getProp_def)

lemma getProp_Cons [simp]: "getProp ((k, v) # ps) k' = (if k' = k then v else getProp ps k')"
  by (simp add: getProp_def)

lemma objAt_append [simp]:
  "objAt (e\<lparr>objs := objs e @ [ps]\<rparr>) a = (if a = length (objs e) then ps else objAt e a)"
  by (simp add: objAt_def nth_append)

lemma objAt_ctx_update [simp]: "objAt (e\<lparr>ctx := c\<rparr>) a = objAt e a"
  by (simp add: objAt_def)

lemma objAt_ret_update [simp]: "objAt (e\<lparr>ret := r\<rparr>) a = objAt e a"
  by (simp add: objAt_def)

lemma objAt_lists_update [simp]: "objAt (e\<lparr>lists := c\<rparr>) a = objAt e a"
  by (simp add: objAt_def)

lemma listAt_ctx_update [simp]: "listAt (e\<lparr>ctx := c\<rparr>) a = listAt e a"
  by (simp add: listAt_def)

lemma listAt_ret_update [simp]: "listAt (e\<lparr>ret := c\<rparr>) a = listAt e a"
  by (simp add: listAt_def)

lemma listAt_objs_update [simp]: "listAt (e\<lparr>objs := c\<rparr>) a = listAt e a"
  by (simp add: listAt_def)

lemma objAt_setAttr [simp]:
  "objAt (setAttr a k v e) b =
     (if b = a \<and> a < length (objs e) then AList.update k v (objAt e a) else objAt e b)"
  by (simp add: objAt_def setAttr_def)

lemma ctx_setAttr [simp]: "ctx (setAttr a k v e) = ctx e"
  by (simp add: setAttr_def)

lemma ret_setAttr [simp]: "ret (setAttr a k v e) = ret e"
  by (simp add: setAttr_def)

lemma lists_setAttr [simp]: "lists (setAttr a k v e) = lists e"
  by (simp add: setAttr_def)

lemma length_objs_setAttr [simp]: "length (objs (setAttr a k v e)) = length (objs e)"
  by (simp add: setAttr_def)

lemma listAt_setAttr [simp]: "listAt (setAttr a k v e) b = listAt e b"
  by (simp add: listAt_def)

lemma listAt_setItems [simp]:
  "listAt (setItems a xs e) b =
     (if b = a \<and> a < length (lists e) then (listAt e a)\<lparr>items := xs\<rparr> else listAt e b)"
  by (simp add: listAt_def setItems_def)

lemma objAt_setItems [simp]: "objAt (setItems a xs e) b = objAt e b"
  by (simp add: setItems_def)

lemma ctx_setItems [simp]: "ctx (setItems a xs e) = ctx e"
  by (simp add: setItems_def)

lemma ret_setItems [simp]: "ret (setItems a xs e) = ret e"
  by (simp add: setItems_def)

lemma objs_setItems [simp]: "objs (setItems a xs e) = objs e"
  by (simp add: setItems_def)

lemma length_lists_setItems [simp]: "length (lists (setItems a xs e)) = length (lists e)"
  by (simp add: setItems_def)

lemma items_listAt_lprops_update:
  "items (listAt (e\<lparr>lists := (lists e)[b := (listAt e b)\<lparr>lprops := ps\<rparr>]\<rparr>) l) = items (listAt e l)"
  by (simp add: listAt_def nth_list_update)

text \<open>
  What can be thrown by the parts of a statement: reads and writes throw TypeErrors only and
  leave the state as it is; a list operation never throws the interpreter's own \<open>Error\<close>.
\<close>

lemma getMember_throws: "getMember e b k = Inl (t, e') \<Longrightarrow> t = TypeError \<and> e' = e"
  by (cases b) auto

lemma setMember_throws: "setMember e b k v = Inl (t, e') \<Longrightarrow> t = TypeError \<and> e' = e"
  by (cases b) auto

lemma evaluateVariable_throws:
  "evaluateVariable v e = Inl (t, e') \<Longrightarrow> t = TypeError \<and> e' = e"
  by (cases v) (auto split: if_splits sum.splits dest: getMember_throws)

lemma evaluateValue_throws:
  "evaluateValue node e = Inl (t, e') \<Longrightarrow> t = TypeError \<and> e' = e"
proof (cases node)
  case (Literal l)
  then show "evaluateValue node e = Inl (t, e') \<Longrightarrow> t = TypeError \<and> e' = e"
    by (cases l) auto
next
  case (Variable v)
  then show "evaluateValue node e = Inl (t, e') \<Longrightarrow> t = TypeError \<and> e' = e"
    by (auto dest: evaluateVariable_throws)
qed

lemma assign_throws: "assign e v x = Inl (t, e') \<Longrightarrow> t = TypeError \<and> e' = e"
  by (cases v) (auto dest: setMember_throws)

lemma invokeOperation_throws:
  "invokeOperation L list operation item e = Some (Inl (t, e')) \<Longrightarrow> t \<noteq> Error msg"
  by (auto simp: invokeOperation_def split: option.splits sum.splits jsval.splits prod.splits
        dest: getMember_throws)

lemma invokeOperation_list:
  "listMethod L operation = Some f \<Longrightarrow>
     invokeOperation L (Lst l) operation item e
       = Some (Inr (setItems l (f item (items (listAt e l))) e))"
  by (simp add: invokeOperation_def)

text \<open>
  Resolving a wrapper \<open>{ref: x}\<close> is resolving what the slot \<open>x\<close> holds.
\<close>

lemma resolve_wrapper:
  "objAt e w = [(''ref'', Str x)] \<Longrightarrow>
     resolve L (Suc m) (Obj w) e = resolve L m (getProp (ctx e) x) e"
  by simp

text \<open>
  The type tag does not depend on the context or on \<open>ret\<close>.
\<close>

lemma getMember_ctx_update:
  "getMember (e\<lparr>ctx := c\<rparr>) v k =
     (case getMember e v k of Inl (t, e') \<Rightarrow> Inl (t, e'\<lparr>ctx := c\<rparr>) | Inr x \<Rightarrow> Inr x)"
  by (cases v) simp_all

lemma getMember_ret_update:
  "getMember (e\<lparr>ret := r\<rparr>) v k =
     (case getMember e v k of Inl (t, e') \<Rightarrow> Inl (t, e'\<lparr>ret := r\<rparr>) | Inr x \<Rightarrow> Inr x)"
  by (cases v) simp_all

lemma metaType_ctx_update [simp]: "metaType (e\<lparr>ctx := c\<rparr>) v = metaType e v"
  by (simp add: metaType_def getMember_ctx_update split: sum.splits prod.splits)

lemma metaType_ret_update [simp]: "metaType (e\<lparr>ret := r\<rparr>) v = metaType e v"
  by (simp add: metaType_def getMember_ret_update split: sum.splits prod.splits)

lemma instantiateType_tags:
  assumes "construct L k e = Some (Inr (v, e1))"
    and "case v of Obj a \<Rightarrow> a < length (objs e1) | Lst a \<Rightarrow> a < length (lists e1) | _ \<Rightarrow> False"
  shows "\<exists>e3. instantiateType L (Fn k) identifier e = Some (Inr (v, e3))
           \<and> metaType e3 v = Str identifier"
  using assms
  by (cases v) (auto simp: allocObj_def metaType_def objAt_def listAt_def nth_append setAttr_def)

subsection \<open>Aliasing through a variable-to-variable assignment\<close>



subsection \<open>What a value assignment stores\<close>

text \<open>
  C2, as the code has it: when the right-hand node evaluates and the assignee can be written
  (a scalar, or an attribute of a name bound to an object or a list), the statement returns
  with \<open>ret = null\<close>; the slot then holds the value itself if the result carried no \<open>ref\<close>,
  and otherwise a new wrapper object \<open>{ref: ...}\<close> around that \<open>ref\<close>, never the value.
\<close>

theorem value_assignment_stores:
  assumes "evaluateValue node e = Inr valueNode"
    and "writable e assignee"
  shows "\<exists>r. interpretAst L n (ValueAssignment assignee node) e = Some (Inr r)
           \<and> ret r = Null
           \<and> (if ref valueNode = Undefined then slot r assignee = val valueNode
                else slot r assignee = Obj (length (objs e))
                   \<and> objAt r (length (objs e)) = [(''ref'', ref valueNode)])"
proof (cases assignee)
  case (Scalar x)
  then show ?thesis using assms
    by (simp add: refOrVal_def allocObj_def nreturn_def slot_def)
next
  case (Object ob sl)
  then show ?thesis using assms
    by (auto simp: refOrVal_def allocObj_def nreturn_def slot_def listAt_def nth_append
          split: jsval.splits)
qed

theorem value_assignment_stores_witness:
  "\<exists>r. interpretAst sampleLib 0
          (ValueAssignment (Object ''o'' ''a'') (Variable (Scalar ''x'')))
          \<lparr>ctx = [(''o'', Obj 0)], ret = Num 3, objs = [[]], lists = []\<rparr> = Some (Inr r)
       \<and> ret r = Null
       \<and> slot r (Object ''o'' ''a'') = Obj 1
       \<and> objAt r 1 = [(''ref'', Str ''x'')]"
  using value_assignment_stores [of "Variable (Scalar ''x'')"
      "\<lparr>ctx = [(''o'', Obj 0)], ret = Num 3, objs = [[]], lists = []\<rparr>"
      "\<lparr>ref = Str ''x'', val = Undefined\<rparr>" "Object ''o'' ''a''" sampleLib 0]
  by simp

text \<open>
  C2 as stated promises \<open>{ctx, ret: null}\<close> for every value assignment: \<open>foo bar is 5\<close> with
  \<open>foo\<close> unbound throws a TypeError in \<open>assign\<close> instead.
\<close>

theorem value_assignment_unbound_base_counterexample:
  "interpretAst sampleLib 0 (ValueAssignment (Object ''foo'' ''bar'') (Literal (Integer 5))) sampleEnv
     = Some (Inl (TypeError, sampleEnv))"
  by (simp add: refOrVal_def sampleEnv_def)

subsection \<open>References to references\<close>




subsection \<open>The sequencer on an empty list\<close>

text \<open>
  C4, as the code has it: on an empty list of nodes \<open>runSequence\<close> returns the environment
  it was given, the same context and the same \<open>ret\<close>, whatever that \<open>ret\<close> is.
\<close>

theorem runSequence_empty: "runSequence L n [] e = Some (Inr e)"
  by simp

text \<open>
  C4 as stated asks for \<open>ret = null\<close>; an environment that comes in with \<open>ret = 7\<close> goes
  out with \<open>ret = 7\<close>, since \<open>ret\<close> is cleared only before a statement is run.
\<close>

theorem runSequence_empty_ret_counterexample:
  "runSequence sampleLib 0 [] (sampleEnv\<lparr>ret := Num 7\<rparr>) = Some (Inr (sampleEnv\<lparr>ret := Num 7\<rparr>))
   \<and> ret (sampleEnv\<lparr>ret := Num 7\<rparr>) \<noteq> Null"
  by simp

subsection \<open>The program \<open>x is 5  y is x\<close>\<close>

text \<open>
  C5, as the code has it: from any environment the program returns; afterwards a scalar read
  of \<open>x\<close> yields 5, the binding of \<open>y\<close> is a wrapper \<open>{ref: x}\<close> (an alias, not a copy
  of the number), and reading \<open>y\<close> through \<open>resolve\<close> yields 5.
\<close>

theorem copy_program_aliases:
  "\<exists>r w. interpretAst L n copyProgram e = Some (Inr r)
     \<and> evaluateVariable (Scalar ''x'') r = Inr \<lparr>ref = Str ''x'', val = Num 5\<rparr>
     \<and> evaluateVariable (Scalar ''y'') r = Inr \<lparr>ref = Str ''y'', val = Obj w\<rparr>
     \<and> objAt r w = [(''ref'', Str ''x'')]
     \<and> resolve L (Suc (Suc m)) (Obj w) r = Some (Num 5, r)"
  by (simp add: copyProgram_def refOrVal_def allocObj_def nreturn_def rmRet_def)

text \<open>
  C5 as stated says that \<open>y\<close> holds the number itself: run from the empty environment, the
  scalar read of \<open>y\<close> yields the wrapper object, not 5.
\<close>

theorem copy_program_counterexample:
  "interpretAst sampleLib 0 copyProgram sampleEnv =
     Some (Inr \<lparr>ctx = [(''x'', Num 5), (''y'', Obj 0)], ret = Null,
                objs = [[(''ref'', Str ''x'')]], lists = []\<rparr>)
   \<and> evaluateVariable (Scalar ''y'')
        \<lparr>ctx = [(''x'', Num 5), (''y'', Obj 0)], ret = Null,
         objs = [[(''ref'', Str ''x'')]], lists = []\<rparr>
      = Inr \<lparr>ref = Str ''y'', val = Obj 0\<rparr>
   \<and> Obj 0 \<noteq> Num 5"
  by (simp add: copyProgram_def sampleEnv_def refOrVal_def allocObj_def nreturn_def rmRet_def)

subsection \<open>List assignment to something that is not there\<close>




subsection \<open>Type assignment\<close>



subsection \<open>What resolve leaves alone\<close>

lemma frame_refl: "frame keep e e"
  by (simp add: frame_def)

lemma frame_trans: "frame keep e1 e2 \<Longrightarrow> frame keep e2 e3 \<Longrightarrow> frame keep e1 e3"
  by (auto simp: frame_def)

lemma frame_weaken: "frame keep e e' \<Longrightarrow> (\<And>b. keep' b \<Longrightarrow> keep b) \<Longrightarrow> frame keep' e e'"
  by (auto simp: frame_def)

lemma frame_allocList: "allocList e = (c, e1) \<Longrightarrow> frame keep e e1"
  by (auto simp: frame_def allocList_def nth_append)

lemma frame_setItems: "frame (\<lambda>b. b \<noteq> c) e (setItems c xs e)"
  by (auto simp: frame_def setItems_def)

lemma frame_setAttr:
  "i \<noteq> ''ref'' \<or> (r = Undefined \<and> getProp (objAt e a) ''ref'' = Undefined) \<Longrightarrow>
     frame keep e (setAttr a i r e)"
  by (auto simp: frame_def)

lemma frame_listAt: "frame keep e e' \<Longrightarrow> b < length (lists e) \<Longrightarrow> keep b \<Longrightarrow> listAt e' b = listAt e b"
  by (auto simp: frame_def listAt_def)

lemma frame_length: "frame keep e e' \<Longrightarrow> length (lists e) \<le> length (lists e')"
  by (simp add: frame_def)

lemma agree_sub: "agree u s lo hi \<Longrightarrow> lo \<le> lo' \<Longrightarrow> hi' \<le> hi \<Longrightarrow> agree u s lo' hi'"
  by (auto simp: agree_def)

lemma agree_frame:
  "agree u s' lo hi \<Longrightarrow> frame keep s s' \<Longrightarrow> hi \<le> length (lists s) \<Longrightarrow>
     (\<And>b. lo \<le> b \<Longrightarrow> b < hi \<Longrightarrow> keep b) \<Longrightarrow> agree u s lo hi"
proof -
  assume u: "agree u s' lo hi" and f: "frame keep s s'" and hi: "hi \<le> length (lists s)"
    and keep: "\<And>b. lo \<le> b \<Longrightarrow> b < hi \<Longrightarrow> keep b"
  have "listAt u b = listAt s b" if "lo \<le> b" "b < hi" for b
  proof -
    from that hi have "b < length (lists s)" by simp
    with f have "listAt s' b = listAt s b" using keep [OF that] by (rule frame_listAt)
    with u that show ?thesis by (simp add: agree_def)
  qed
  then show ?thesis by (simp add: agree_def)
qed

lemma resolve_Undefined: "resolve L n Undefined e = Some (r, e') \<Longrightarrow> r = Undefined \<and> e' = e"
  by (cases n) auto

text \<open>
  \<open>resolve\<close> writes to attributes of plain objects and to the list it has just made, and to
  nothing else.
\<close>

lemma resolve_frame:
  shows "resolve L n v e = Some (r, e') \<Longrightarrow> frame (\<lambda>b. True) e e'"
    and "resolveAttrs L n a ks e = Some e' \<Longrightarrow> getProp (objAt e a) ''ref'' = Undefined \<Longrightarrow>
           frame (\<lambda>b. True) e e'"
    and "resolveItems L n c xs e = Some e' \<Longrightarrow> frame (\<lambda>b. b \<noteq> c) e e'"
proof (induction L n v e and L n a ks e and L n c xs e arbitrary: r e' and e' and e'
    rule: resolve_resolveAttrs_resolveItems.induct)
  case (2 L n a e)
  obtain c e1 where al: "allocList e = (c, e1)" by (cases "allocList e")
  with "2.prems" obtain e2 where it: "resolveItems L n c (items (listAt e a)) e1 = Some e2"
    and res: "r = Lst c" "e' = e2"
    by (auto split: option.splits)
  have c: "c = length (lists e)" using al by (simp add: allocList_def)
  have "frame (\<lambda>b. b \<noteq> c) e1 e2" using "2.IH" al it by simp
  with frame_allocList [OF al, of "\<lambda>b. b \<noteq> c"] have "frame (\<lambda>b. b \<noteq> c) e e2"
    by (rule frame_trans)
  then show ?case using res c by (auto simp: frame_def)
next
  case (3 L n a e)
  then show ?case by (auto split: if_splits option.splits)
next
  case (11 L n a i rest e)
  show ?case
  proof (cases "i = ''_meta''")
    case True
    with 11 show ?thesis by simp
  next
    case False
    with "11.prems" obtain r1 e1 where
      r1: "resolve L n (getProp (objAt e a) i) e = Some (r1, e1)"
      and rest: "resolveAttrs L n a rest (setAttr a i r1 e1) = Some e'"
      by (auto split: option.splits)
    from "11.IH"(1) [OF False r1] have f1: "frame (\<lambda>b. True) e e1" .
    have ok: "i \<noteq> ''ref'' \<or> (r1 = Undefined \<and> getProp (objAt e1 a) ''ref'' = Undefined)"
      using r1 "11.prems"(2) f1 by (auto dest: resolve_Undefined simp: frame_def)
    have f2: "frame (\<lambda>b. True) e1 (setAttr a i r1 e1)"
      using ok by (rule frame_setAttr)
    have "getProp (objAt (setAttr a i r1 e1) a) ''ref'' = getProp (objAt e1 a) ''ref''"
      using f2 unfolding frame_def by blast
    also have "\<dots> = getProp (objAt e a) ''ref''"
      using f1 unfolding frame_def by blast
    finally have "getProp (objAt (setAttr a i r1 e1) a) ''ref'' = Undefined"
      using "11.prems"(2) by simp
    with "11.IH"(2) [OF False r1 refl rest] have "frame (\<lambda>b. True) (setAttr a i r1 e1) e'"
      by simp
    with f1 f2 show ?thesis by (blast intro: frame_trans)
  qed
next
  case (13 L n c item rest e)
  from "13.prems" obtain r1 e1 where
    r1: "resolve L n item e = Some (r1, e1)"
    and rest: "resolveItems L n c rest (setItems c (items (listAt e1 c) @ [r1]) e1) = Some e'"
    by (auto split: option.splits)
  from "13.IH"(1) [OF r1] have "frame (\<lambda>b. b \<noteq> c) e e1"
    by (rule frame_weaken) simp
  moreover have "frame (\<lambda>b. b \<noteq> c) e1 (setItems c (items (listAt e1 c) @ [r1]) e1)"
    by (rule frame_setItems)
  moreover from "13.IH"(2) [OF r1 refl rest]
  have "frame (\<lambda>b. b \<noteq> c) (setItems c (items (listAt e1 c) @ [r1]) e1) e'" .
  ultimately show ?case by (blast intro: frame_trans)
qed (auto simp: frame_refl)

subsection \<open>Resolved forms\<close>

inductive_cases resolvedForm_ObjE: "resolvedForm L e (Obj a) t"
inductive_cases resolvedForm_LstE: "resolvedForm L e (Lst a) t"
inductive_cases resolvedForms_NilE: "resolvedForms L e [] ts"
inductive_cases resolvedForms_ConsE: "resolvedForms L e (v # vs) ts"

lemma resolvedForm_unique:
  shows "resolvedForm L e v t \<Longrightarrow> resolvedForm L e v t' \<Longrightarrow> t = t'"
    and "resolvedForms L e vs ts \<Longrightarrow> resolvedForms L e vs ts' \<Longrightarrow> ts = ts'"
proof (induct arbitrary: t' and ts' rule: resolvedForm_resolvedForms.inducts)
  case (scalar v)
  from scalar.prems scalar.hyps show ?case
    by cases auto
next
  case (object a)
  from object.prems show ?case
  proof (rule resolvedForm_ObjE)
    assume "t' = Leaf (Obj a)"
    then show ?thesis by simp
  next
    assume "getProp (objAt e a) ''ref'' \<noteq> Undefined"
    with object.hyps show ?thesis by simp
  qed
next
  case (reference a t)
  from reference.prems show ?case
  proof (rule resolvedForm_ObjE)
    assume "getProp (objAt e a) ''ref'' = Undefined"
    with reference.hyps(1) show ?thesis by simp
  next
    assume "resolvedForm L e (getProp (ctx e) (toString L (getProp (objAt e a) ''ref''))) t'"
    then show ?thesis by (rule reference.hyps(3))
  qed
next
  case (list a ts)
  from list.prems show ?case
  proof (rule resolvedForm_LstE)
    fix ts'
    assume "t' = Node ts'" "resolvedForms L e (items (listAt e a)) ts'"
    with list.hyps(3) show ?thesis by simp
  qed
next
  case none
  from none.prems show ?case
    by (rule resolvedForms_NilE) simp
next
  case (more v t vs ts)
  from more.prems show ?case
  proof (rule resolvedForms_ConsE)
    fix t2 ts2
    assume "ts' = t2 # ts2" "resolvedForm L e v t2" "resolvedForms L e vs ts2"
    with more.hyps(2,4) show ?thesis by simp
  qed
qed

lemma closed_ctx: "closed e \<Longrightarrow> allocated e (getProp (ctx e) k)"
  by (auto simp: closed_def getProp_def list_all_iff allocated_def split: option.splits dest!: map_of_SomeD)

lemma closed_items: "closed e \<Longrightarrow> a < length (lists e) \<Longrightarrow> list_all (allocated e) (items (listAt e a))"
  by (auto simp: closed_def listAt_def list_all_iff)

lemma scalar_shape:
  "(case v of Obj a \<Rightarrow> False | Lst a \<Rightarrow> False | _ \<Rightarrow> True) \<Longrightarrow>
     \<exists>t. resolvedForm L e0 v t \<and> (\<forall>u. P u \<longrightarrow> hasShape u v t)"
  by (rule exI [of _ "Leaf v"]) (auto intro: resolvedForm_resolvedForms.scalar split: jsval.splits)

text \<open>
  From a state that still has the context, the references and the lists of a closed state
  \<open>e0\<close>, a run of \<open>resolve\<close> that returns gives a value whose tree is the resolved form
  of its argument in \<open>e0\<close>, in every state that agrees with the final one on the lists made
  by the run.
\<close>

lemma resolve_shape:
  assumes closed: "closed e0"
  shows "resolve L n v s = Some (r, s') \<Longrightarrow> frame (\<lambda>b. True) e0 s \<Longrightarrow> allocated e0 v \<Longrightarrow>
           \<exists>t. resolvedForm L e0 v t
             \<and> (\<forall>u. agree u s' (length (lists s)) (length (lists s')) \<longrightarrow> hasShape u r t)"
    and "resolveAttrs L n a ks s = Some s' \<Longrightarrow> True"
    and "resolveItems L n c xs s = Some s' \<Longrightarrow> frame (\<lambda>b. True) e0 s \<Longrightarrow>
           list_all (allocated e0) xs \<Longrightarrow> length (lists e0) \<le> c \<Longrightarrow> c < length (lists s) \<Longrightarrow>
           \<exists>rs ts. items (listAt s' c) = items (listAt s c) @ rs
             \<and> resolvedForms L e0 xs ts
             \<and> (\<forall>u. agree u s' (length (lists s)) (length (lists s')) \<longrightarrow> hasShapes u rs ts)"
proof (induction L n v s and L n a ks s and L n c xs s arbitrary: r s' and s' and s'
    rule: resolve_resolveAttrs_resolveItems.induct)
  case (2 L n a s)
  let ?c = "length (lists s)"
  let ?s1 = "s\<lparr>lists := lists s @ [\<lparr>items = [], lprops = []\<rparr>]\<rparr>"
  have al: "(?c, ?s1) = allocList s" by (simp add: allocList_def)
  from "2.prems"(1) have it: "resolveItems L n ?c (items (listAt s a)) ?s1 = Some s'"
    and r: "r = Lst ?c"
    by (auto simp: allocList_def split: option.splits)
  from "2.prems"(3) have a: "a < length (lists e0)" by (simp add: allocated_def)
  have same: "listAt s a = listAt e0 a"
    using "2.prems"(2) a by (rule frame_listAt) simp
  have its: "list_all (allocated e0) (items (listAt s a))"
    using closed a by (simp add: same closed_items)
  have f1: "frame (\<lambda>b. True) e0 ?s1"
    using "2.prems"(2) frame_allocList [OF al [symmetric]] by (rule frame_trans)
  have le: "length (lists e0) \<le> ?c"
    using "2.prems"(2) by (rule frame_length)
  from "2.IH" [OF al it f1 its le] obtain rs ts where
    rs: "items (listAt s' ?c) = items (listAt ?s1 ?c) @ rs"
    and ts: "resolvedForms L e0 (items (listAt s a)) ts"
    and sh: "\<forall>u. agree u s' (length (lists ?s1)) (length (lists s')) \<longrightarrow> hasShapes u rs ts"
    by auto
  have rs': "items (listAt s' ?c) = rs"
    using rs by (simp add: listAt_def)
  have grow: "length (lists ?s1) \<le> length (lists s')"
    using resolve_frame(3) [OF it] by (rule frame_length)
  have "resolvedForm L e0 (Lst a) (Node ts)"
    using a ts by (simp add: same resolvedForm_resolvedForms.list)
  moreover have "hasShape u r (Node ts)" if u: "agree u s' ?c (length (lists s'))" for u
  proof -
    from u grow have "listAt u ?c = listAt s' ?c" by (simp add: agree_def)
    moreover from u have "agree u s' (length (lists ?s1)) (length (lists s'))"
      by (rule agree_sub) simp_all
    with sh have "hasShapes u rs ts" by blast
    ultimately show ?thesis by (simp add: r rs')
  qed
  ultimately show ?case by blast
next
  case (3 L n a s)
  from "3.prems"(2) have refs: "getProp (objAt s a) ''ref'' = getProp (objAt e0 a) ''ref''"
    and ctx: "ctx s = ctx e0"
    by (simp_all add: frame_def)
  show ?case
  proof (cases "getProp (objAt s a) ''ref'' = Undefined")
    case True
    with "3.prems"(1) have "r = Obj a" by (auto split: option.splits)
    moreover from True refs have "resolvedForm L e0 (Obj a) (Leaf (Obj a))"
      by (simp add: resolvedForm_resolvedForms.object)
    ultimately show ?thesis by auto
  next
    case False
    let ?next = "getProp (ctx s) (toString L (getProp (objAt s a) ''ref''))"
    from False "3.prems"(1) have run: "resolve L n ?next s = Some (r, s')" by simp
    have "allocated e0 ?next" using closed by (simp add: ctx closed_ctx)
    from "3.IH"(2) [OF False run "3.prems"(2) this] obtain t where
      t: "resolvedForm L e0 ?next t"
      and sh: "\<forall>u. agree u s' (length (lists s)) (length (lists s')) \<longrightarrow> hasShape u r t"
      by blast
    from False t have "resolvedForm L e0 (Obj a) t"
      by (simp add: refs ctx resolvedForm_resolvedForms.reference)
    with sh show ?thesis by blast
  qed
next
  case (13 L n c item rest s)
  from "13.prems"(1) obtain r1 s1 where
    r1: "resolve L n item s = Some (r1, s1)"
    and rest: "resolveItems L n c rest (setItems c (items (listAt s1 c) @ [r1]) s1) = Some s'"
    by (auto split: option.splits)
  let ?s2 = "setItems c (items (listAt s1 c) @ [r1]) s1"
  from "13.prems"(3) have item: "allocated e0 item" and others: "list_all (allocated e0) rest"
    by simp_all
  from "13.IH"(1) [OF r1 "13.prems"(2) item] obtain t where
    t: "resolvedForm L e0 item t"
    and sh1: "\<forall>u. agree u s1 (length (lists s)) (length (lists s1)) \<longrightarrow> hasShape u r1 t"
    by blast
  have f1: "frame (\<lambda>b. True) s s1" using r1 by (rule resolve_frame(1))
  have c1: "c < length (lists s1)" using f1 "13.prems"(5) by (auto simp: frame_def)
  have f2: "frame (\<lambda>b. b \<noteq> c) s1 ?s2" by (rule frame_setItems)
  have f02: "frame (\<lambda>b. True) e0 ?s2"
    using "13.prems"(2,4) f1 f2 by (auto simp: frame_def)
  have c2: "c < length (lists ?s2)" using c1 by simp
  from "13.IH"(2) [OF r1 refl rest f02 others "13.prems"(4) c2] obtain rs ts where
    rs: "items (listAt s' c) = items (listAt ?s2 c) @ rs"
    and ts: "resolvedForms L e0 rest ts"
    and sh2: "\<forall>u. agree u s' (length (lists ?s2)) (length (lists s')) \<longrightarrow> hasShapes u rs ts"
    by blast
  have f3: "frame (\<lambda>b. b \<noteq> c) ?s2 s'" using rest by (rule resolve_frame(3))
  have same: "listAt s1 c = listAt s c"
    using f1 "13.prems"(5) by (rule frame_listAt) simp
  have "items (listAt s' c) = items (listAt s c) @ (r1 # rs)"
    using rs c1 by (simp add: same)
  moreover have "resolvedForms L e0 (item # rest) (t # ts)"
    using t ts by (rule resolvedForm_resolvedForms.more)
  moreover have "hasShapes u (r1 # rs) (t # ts)"
    if u: "agree u s' (length (lists s)) (length (lists s'))" for u
  proof -
    have len: "length (lists s) \<le> length (lists s1)" "length (lists s1) \<le> length (lists s')"
      using f1 f3 by (auto simp: frame_def)
    from u have "agree u s' (length (lists s)) (length (lists s1))"
      by (rule agree_sub) (simp_all add: len)
    then have "agree u ?s2 (length (lists s)) (length (lists s1))"
      using f3 by (rule agree_frame) (use "13.prems"(5) in auto)
    then have "agree u s1 (length (lists s)) (length (lists s1))"
      using f2 by (rule agree_frame) (use "13.prems"(5) in auto)
    with sh1 have "hasShape u r1 t" by blast
    moreover from u have "agree u s' (length (lists ?s2)) (length (lists s'))"
      by (rule agree_sub) (simp_all add: len)
    with sh2 have "hasShapes u rs ts" by blast
    ultimately show ?thesis by simp
  qed
  ultimately show ?case by blast
next
  case (12 L n c s)
  then show ?case by (auto intro: resolvedForm_resolvedForms.none)
qed (simp_all add: scalar_shape)

text \<open>
  A list that holds a reference to its own slot: \<open>resolve\<close> does not return on it.
\<close>

lemma self_reference_diverges:
  assumes "getProp (ctx e) x = Lst a"
    and "items (listAt e a) = [Obj w]"
    and "getProp (objAt e w) ''ref'' = Str x"
  shows "resolve L n (Lst a) e = None \<and> resolve L n (Obj w) e = None"
  using assms
proof (induction n arbitrary: e)
  case 0
  then show ?case by simp
next
  case (Suc n)
  let ?e1 = "e\<lparr>lists := lists e @ [\<lparr>items = [], lprops = []\<rparr>]\<rparr>"
  have a: "a < length (lists e)"
    using Suc.prems(2) by (auto simp: listAt_def split: if_splits)
  have "items (listAt ?e1 a) = [Obj w]"
    using a Suc.prems(2) by (simp add: listAt_def nth_append)
  with Suc.prems have "resolve L n (Obj w) ?e1 = None"
    using Suc.IH [of ?e1] by simp
  then have "resolve L (Suc n) (Lst a) e = None"
    using Suc.prems(2) by (simp add: allocList_def)
  moreover have "resolve L (Suc n) (Obj w) e = None"
    using Suc.prems Suc.IH [of e] by simp
  ultimately show ?case by simp
qed

subsection \<open>Resolving a list twice\<close>

text \<open>
  Whenever \<open>resolve\<close> returns on a list of a closed state, and returns on it a second
  time, the two results are new lists with the same tree, and the original is as it was.
\<close>

lemma resolve_twice:
  assumes closed: "closed e"
    and a: "a < length (lists e)"
    and first: "resolve L n (Lst a) e = Some (r1, e1)"
    and second: "resolve L m (Lst a) e1 = Some (r2, e2)"
  shows "r1 = Lst (length (lists e)) \<and> r2 = Lst (length (lists e1))
           \<and> length (lists e) < length (lists e1)
           \<and> listAt e1 a = listAt e a \<and> listAt e2 a = listAt e a
           \<and> (\<exists>ts. resolvedForms L e (items (listAt e a)) ts
                  \<and> hasShape e1 r1 (Node ts)
                  \<and> hasShape e2 r1 (Node ts) \<and> hasShape e2 r2 (Node ts))"
proof -
  have alloc: "allocated e (Lst a)" using a by (simp add: allocated_def)
  have f1: "frame (\<lambda>b. True) e e1" using first by (rule resolve_frame(1))
  have f2: "frame (\<lambda>b. True) e1 e2" using second by (rule resolve_frame(1))
  have f02: "frame (\<lambda>b. True) e e2" using f1 f2 by (rule frame_trans)
  from first obtain n' where n: "n = Suc n'" by (cases n) auto
  from second obtain m' where m: "m = Suc m'" by (cases m) auto
  have r1: "r1 = Lst (length (lists e))"
    using first by (auto simp: n allocList_def split: option.splits)
  have r2: "r2 = Lst (length (lists e1))"
    using second by (auto simp: m allocList_def split: option.splits)
  from resolve_shape(1) [OF closed first frame_refl alloc] obtain t1 where
    t1: "resolvedForm L e (Lst a) t1"
    and sh1: "\<forall>u. agree u e1 (length (lists e)) (length (lists e1)) \<longrightarrow> hasShape u r1 t1"
    by blast
  from resolve_shape(1) [OF closed second f1 alloc] obtain t2 where
    t2: "resolvedForm L e (Lst a) t2"
    and sh2: "\<forall>u. agree u e2 (length (lists e1)) (length (lists e2)) \<longrightarrow> hasShape u r2 t2"
    by blast
  from t1 t2 have same: "t2 = t1" by (rule resolvedForm_unique(1) [symmetric])
  from t1 obtain ts where ts: "t1 = Node ts" "resolvedForms L e (items (listAt e a)) ts"
    by (rule resolvedForm_LstE)
  have "agree e1 e1 (length (lists e)) (length (lists e1))"
    by (simp add: agree_def)
  with sh1 have s11: "hasShape e1 r1 t1" by blast
  have "agree e2 e2 (length (lists e)) (length (lists e1))"
    by (simp add: agree_def)
  then have "agree e2 e1 (length (lists e)) (length (lists e1))"
    using f2 by (rule agree_frame) simp_all
  with sh1 have s21: "hasShape e2 r1 t1" by blast
  have "agree e2 e2 (length (lists e1)) (length (lists e2))"
    by (simp add: agree_def)
  with sh2 have s22: "hasShape e2 r2 t1" by (simp add: same)
  have new: "length (lists e) < length (lists e1)"
  proof -
    from s11 have "hasShapes e1 (items (listAt e1 (length (lists e)))) ts"
      by (simp add: r1 ts)
    have "resolveItems L n' (length (lists e)) (items (listAt e a))
            (e\<lparr>lists := lists e @ [\<lparr>items = [], lprops = []\<rparr>]\<rparr>) = Some e1"
      using first by (auto simp: n allocList_def split: option.splits)
    then have "frame (\<lambda>b. b \<noteq> length (lists e))
        (e\<lparr>lists := lists e @ [\<lparr>items = [], lprops = []\<rparr>]\<rparr>) e1"
      by (rule resolve_frame(3))
    then show ?thesis by (simp add: frame_def)
  qed
  have "listAt e1 a = listAt e a" using f1 a by (rule frame_listAt) simp
  moreover have "listAt e2 a = listAt e a" using f02 a by (rule frame_listAt) simp
  ultimately show ?thesis
    using r1 r2 new ts s11 s21 s22 by auto
qed

subsection \<open>States without cycles\<close>

lemma ranked_closed:
  assumes "ranked L ro rl e"
  shows "closed e"
proof -
  have "list_all (allocated e) (items l)" if "l \<in> set (lists e)" for l
  proof -
    from that obtain c where "c < length (lists e)" "l = lists e ! c"
      by (auto simp: in_set_conv_nth)
    with assms have "list_all (below e ro rl (rl c)) (items l)"
      by (simp add: ranked_def)
    then show ?thesis
      by (simp add: list_all_iff below_def)
  qed
  with assms show ?thesis
    by (simp add: closed_def ranked_def list_all_iff)
qed

lemma ranked_ctx: "ranked L ro rl e \<Longrightarrow> allocated e (getProp (ctx e) k)"
  by (rule closed_ctx) (rule ranked_closed)

lemma ranked_item:
  "ranked L ro rl e \<Longrightarrow> c < length (lists e) \<Longrightarrow> list_all (below e ro rl (rl c)) (items (listAt e c))"
  by (simp add: ranked_def listAt_def)

lemma ranked_ref:
  assumes "ranked L ro rl e" and "getProp (objAt e a) ''ref'' \<noteq> Undefined"
  shows "rankOf ro rl (getProp (ctx e) (toString L (getProp (objAt e a) ''ref''))) < ro a"
proof -
  from assms(2) have "a < length (objs e)"
    by (auto simp: objAt_def split: if_splits)
  with assms show ?thesis
    by (auto simp: ranked_def objAt_def)
qed

lemma ranked_attr:
  assumes "ranked L ro rl e" and "a < length (objs e)"
    and "getProp (objAt e a) ''ref'' = Undefined" and "k \<noteq> ''_meta''"
  shows "below e ro rl (ro a) (getProp (objAt e a) k)"
proof (cases "map_of (objAt e a) k")
  case None
  then have "getProp (objAt e a) k = Undefined" by (simp add: getProp_def)
  moreover from assms have "0 < ro a" by (auto simp: ranked_def objAt_def)
  ultimately show ?thesis by (simp add: below_def allocated_def rankOf_def)
next
  case (Some v)
  then have mem: "(k, v) \<in> set (objAt e a)" by (rule map_of_SomeD)
  from assms(1,2,3) have
    "list_all (\<lambda>kv. fst kv = ''_meta'' \<or> below e ro rl (ro a) (getProp (objAt e a) (fst kv)))
       (objAt e a)"
    by (auto simp: ranked_def objAt_def)
  with mem assms(4) show ?thesis
    by (auto simp: list_all_iff)
qed

lemma ranked_pos:
  "ranked L ro rl e \<Longrightarrow> a < length (objs e) \<Longrightarrow> getProp (objAt e a) ''ref'' = Undefined \<Longrightarrow> 0 < ro a"
  by (auto simp: ranked_def objAt_def)

lemma rankedI:
  assumes ctx: "list_all (\<lambda>kv. allocated e (snd kv)) (ctx e)"
    and its: "\<And>c. c < length (lists e) \<Longrightarrow> list_all (below e ro rl (rl c)) (items (listAt e c))"
    and pos: "\<And>a. a < length (objs e) \<Longrightarrow> getProp (objAt e a) ''ref'' = Undefined \<Longrightarrow> 0 < ro a"
    and attrs: "\<And>a k. a < length (objs e) \<Longrightarrow> getProp (objAt e a) ''ref'' = Undefined \<Longrightarrow>
           k \<noteq> ''_meta'' \<Longrightarrow> below e ro rl (ro a) (getProp (objAt e a) k)"
    and refs: "\<And>a. a < length (objs e) \<Longrightarrow> getProp (objAt e a) ''ref'' \<noteq> Undefined \<Longrightarrow>
           rankOf ro rl (getProp (ctx e) (toString L (getProp (objAt e a) ''ref''))) < ro a"
  shows "ranked L ro rl e"
proof -
  have l: "list_all (below e ro rl (rl c)) (items (lists e ! c))" if "c < length (lists e)" for c
    using its [OF that] that by (simp add: listAt_def)
  have o: "if getProp (objs e ! a) ''ref'' = Undefined
           then 0 < ro a
              \<and> list_all (\<lambda>kv. fst kv = ''_meta'' \<or> below e ro rl (ro a) (getProp (objs e ! a) (fst kv)))
                   (objs e ! a)
           else rankOf ro rl (getProp (ctx e) (toString L (getProp (objs e ! a) ''ref''))) < ro a"
    if a: "a < length (objs e)" for a
  proof (cases "getProp (objs e ! a) ''ref'' = Undefined")
    case True
    then have plain: "getProp (objAt e a) ''ref'' = Undefined" using a by (simp add: objAt_def)
    have "fst kv = ''_meta'' \<or> below e ro rl (ro a) (getProp (objs e ! a) (fst kv))" for kv
      using attrs [OF a plain, of "fst kv"] a by (auto simp: objAt_def)
    then have "list_all (\<lambda>kv. fst kv = ''_meta'' \<or> below e ro rl (ro a) (getProp (objs e ! a) (fst kv)))
        (objs e ! a)"
      unfolding list_all_iff by blast
    with True pos [OF a plain] show ?thesis by simp
  next
    case False
    then have "getProp (objAt e a) ''ref'' \<noteq> Undefined" using a by (simp add: objAt_def)
    from refs [OF a this] False a show ?thesis by (simp add: objAt_def)
  qed
  from ctx l o show ?thesis
    unfolding ranked_def by blast
qed

lemma below_mono:
  assumes "below e ro rl b v"
    and "length (lists e) \<le> length (lists e')"
    and "\<forall>c < length (lists e). rl' c = rl c"
  shows "below e' ro rl' b v"
  using assms by (cases v) (auto simp: below_def allocated_def rankOf_def)

lemma allocated_mono: "allocated e v \<Longrightarrow> length (lists e) \<le> length (lists e') \<Longrightarrow> allocated e' v"
  by (cases v) (auto simp: allocated_def)

lemma rankOf_ext:
  "allocated e v \<Longrightarrow> \<forall>c < length (lists e). rl' c = rl c \<Longrightarrow> rankOf ro rl' v = rankOf ro rl v"
  by (cases v) (auto simp: allocated_def rankOf_def)

text \<open>
  Allocating the list of a copy, appending a resolved item to it and storing a resolved
  attribute keep a state ranked.
\<close>

lemma ranked_grow:
  assumes r: "ranked L ro rl s"
  shows "ranked L ro (rl(length (lists s) := k)) (s\<lparr>lists := lists s @ [\<lparr>items = [], lprops = []\<rparr>]\<rparr>)"
    (is "ranked L ro ?rl ?s")
proof (rule rankedI)
  have ext: "\<forall>c < length (lists s). ?rl c = rl c" by simp
  have len: "length (lists s) \<le> length (lists ?s)" by simp
  show "list_all (\<lambda>kv. allocated ?s (snd kv)) (ctx ?s)"
    using r by (auto simp: ranked_def list_all_iff intro: allocated_mono [OF _ len])
  show "list_all (below ?s ro ?rl (?rl c)) (items (listAt ?s c))" if "c < length (lists ?s)" for c
  proof (cases "c < length (lists s)")
    case True
    then have "listAt ?s c = listAt s c" by (simp add: listAt_def nth_append)
    moreover from r True have "list_all (below s ro rl (rl c)) (items (listAt s c))"
      by (rule ranked_item)
    ultimately show ?thesis
      using True by (auto simp: list_all_iff intro: below_mono [OF _ len ext])
  next
    case False
    with that have "c = length (lists s)" by simp
    then show ?thesis by (simp add: listAt_def)
  qed
  show "0 < ro a" if "a < length (objs ?s)" "getProp (objAt ?s a) ''ref'' = Undefined" for a
    using that r by (auto intro: ranked_pos)
  show "below ?s ro ?rl (ro a) (getProp (objAt ?s a) k)"
    if "a < length (objs ?s)" "getProp (objAt ?s a) ''ref'' = Undefined" "k \<noteq> ''_meta''" for a k
  proof -
    from that r have "below s ro rl (ro a) (getProp (objAt s a) k)"
      by (auto intro: ranked_attr)
    then show ?thesis using len ext by (simp add: below_mono)
  qed
  show "rankOf ro ?rl (getProp (ctx ?s) (toString L (getProp (objAt ?s a) ''ref''))) < ro a"
    if "a < length (objs ?s)" "getProp (objAt ?s a) ''ref'' \<noteq> Undefined" for a
  proof -
    from that r have "rankOf ro rl (getProp (ctx s) (toString L (getProp (objAt s a) ''ref''))) < ro a"
      by (auto intro: ranked_ref)
    moreover have "allocated s (getProp (ctx s) (toString L (getProp (objAt s a) ''ref'')))"
      using r by (rule ranked_ctx)
    from rankOf_ext [OF this ext]
    have "rankOf ro ?rl (getProp (ctx s) (toString L (getProp (objAt s a) ''ref'')))
        = rankOf ro rl (getProp (ctx s) (toString L (getProp (objAt s a) ''ref'')))" .
    ultimately show ?thesis by simp
  qed
qed

lemma allocated_same_length:
  "length (lists e') = length (lists e) \<Longrightarrow> allocated e' = allocated e"
  by (rule ext) (simp add: allocated_def split: jsval.splits)

lemma below_same_length:
  assumes "length (lists e') = length (lists e)"
  shows "below e' ro rl b = below e ro rl b"
  by (rule ext) (simp add: below_def allocated_same_length [OF assms])

lemma ranked_setItems:
  assumes r: "ranked L ro rl s" and c: "c < length (lists s)" and new: "below s ro rl (rl c) x"
  shows "ranked L ro rl (setItems c (items (listAt s c) @ [x]) s)" (is "ranked L ro rl ?s")
proof (rule rankedI)
  have len: "length (lists ?s) = length (lists s)" by simp
  have al: "allocated ?s = allocated s" using len by (rule allocated_same_length)
  have bl: "below ?s ro rl b = below s ro rl b" for b using len by (rule below_same_length)
  from r have "list_all (\<lambda>kv. allocated s (snd kv)) (ctx s)"
    by (simp add: ranked_def)
  then show "list_all (\<lambda>kv. allocated ?s (snd kv)) (ctx ?s)"
    by (simp only: al ctx_setItems)
  show "list_all (below ?s ro rl (rl b)) (items (listAt ?s b))" if "b < length (lists ?s)" for b
  proof -
    from that have b: "b < length (lists s)" by simp
    from r b have old: "list_all (below s ro rl (rl b)) (items (listAt s b))"
      by (rule ranked_item)
    show ?thesis
    proof (cases "b = c")
      case True
      with old new c show ?thesis by (simp add: bl)
    next
      case False
      with old c show ?thesis by (simp add: bl)
    qed
  qed
  show "0 < ro a" if "a < length (objs ?s)" "getProp (objAt ?s a) ''ref'' = Undefined" for a
  proof (rule ranked_pos [OF r])
    show "a < length (objs s)" using that(1) by simp
    show "getProp (objAt s a) ''ref'' = Undefined" using that(2) by simp
  qed
  show "below ?s ro rl (ro a) (getProp (objAt ?s a) k)"
    if "a < length (objs ?s)" "getProp (objAt ?s a) ''ref'' = Undefined" "k \<noteq> ''_meta''" for a k
  proof -
    have "below s ro rl (ro a) (getProp (objAt s a) k)"
    proof (rule ranked_attr [OF r])
      show "a < length (objs s)" using that(1) by simp
      show "getProp (objAt s a) ''ref'' = Undefined" using that(2) by simp
      show "k \<noteq> ''_meta''" by (rule that(3))
    qed
    then show ?thesis by (simp add: bl)
  qed
  show "rankOf ro rl (getProp (ctx ?s) (toString L (getProp (objAt ?s a) ''ref''))) < ro a"
    if "a < length (objs ?s)" "getProp (objAt ?s a) ''ref'' \<noteq> Undefined" for a
  proof -
    have "rankOf ro rl (getProp (ctx s) (toString L (getProp (objAt s a) ''ref''))) < ro a"
    proof (rule ranked_ref [OF r])
      show "getProp (objAt s a) ''ref'' \<noteq> Undefined" using that(2) by simp
    qed
    then show ?thesis by simp
  qed
qed

lemma ranked_setAttr:
  assumes r: "ranked L ro rl s" and a: "a < length (objs s)"
    and plain: "getProp (objAt s a) ''ref'' = Undefined"
    and i: "i \<noteq> ''_meta''"
    and new: "below s ro rl (ro a) x"
    and keep: "i = ''ref'' \<longrightarrow> x = Undefined"
  shows "ranked L ro rl (setAttr a i x s)" (is "ranked L ro rl ?s")
proof (rule rankedI)
  have len: "length (lists ?s) = length (lists s)" by simp
  have al: "allocated ?s = allocated s" using len by (rule allocated_same_length)
  have bl: "below ?s ro rl b = below s ro rl b" for b using len by (rule below_same_length)
  have refs: "getProp (objAt ?s b) ''ref'' = getProp (objAt s b) ''ref''" for b
    using a plain keep by simp
  from r have "list_all (\<lambda>kv. allocated s (snd kv)) (ctx s)"
    by (simp add: ranked_def)
  then show "list_all (\<lambda>kv. allocated ?s (snd kv)) (ctx ?s)"
    by (simp only: al ctx_setAttr)
  show "list_all (below ?s ro rl (rl b)) (items (listAt ?s b))" if "b < length (lists ?s)" for b
  proof -
    from that have "b < length (lists s)" by simp
    with r have "list_all (below s ro rl (rl b)) (items (listAt s b))"
      by (rule ranked_item)
    then show ?thesis by (simp add: bl)
  qed
  show "0 < ro b" if "b < length (objs ?s)" "getProp (objAt ?s b) ''ref'' = Undefined" for b
  proof (rule ranked_pos [OF r])
    show "b < length (objs s)" using that(1) by simp
    show "getProp (objAt s b) ''ref'' = Undefined" using that(2) unfolding refs .
  qed
  show "below ?s ro rl (ro b) (getProp (objAt ?s b) k)"
    if "b < length (objs ?s)" "getProp (objAt ?s b) ''ref'' = Undefined" "k \<noteq> ''_meta''" for b k
  proof -
    have old: "below s ro rl (ro b) (getProp (objAt s b) k)"
    proof (rule ranked_attr [OF r])
      show "b < length (objs s)" using that(1) by simp
      show "getProp (objAt s b) ''ref'' = Undefined" using that(2) unfolding refs .
      show "k \<noteq> ''_meta''" by (rule that(3))
    qed
    show ?thesis
    proof (cases "b = a")
      case False
      with old show ?thesis by (simp add: bl)
    next
      case True
      show ?thesis
      proof (cases "k = i")
        case True
        with \<open>b = a\<close> new a show ?thesis by (simp add: bl)
      next
        case False
        with \<open>b = a\<close> old a show ?thesis by (simp add: bl)
      qed
    qed
  qed
  show "rankOf ro rl (getProp (ctx ?s) (toString L (getProp (objAt ?s b) ''ref''))) < ro b"
    if "b < length (objs ?s)" "getProp (objAt ?s b) ''ref'' \<noteq> Undefined" for b
  proof -
    have "rankOf ro rl (getProp (ctx s) (toString L (getProp (objAt s b) ''ref''))) < ro b"
    proof (rule ranked_ref [OF r])
      show "getProp (objAt s b) ''ref'' \<noteq> Undefined" using that(2) unfolding refs .
    qed
    then show ?thesis unfolding refs by simp
  qed
qed

text \<open>
  In a ranked state \<open>resolve\<close> returns on every value whose rank is below the bound on the
  depth, and leaves the state ranked.
\<close>

lemma resolve_returns:
  shows "ranked L ro rl s \<Longrightarrow> allocated s v \<Longrightarrow> rankOf ro rl v < n \<Longrightarrow>
           \<exists>r s' rl'. resolve L n v s = Some (r, s') \<and> ranked L ro rl' s'
             \<and> (\<forall>b < length (lists s). rl' b = rl b)
             \<and> allocated s' r \<and> rankOf ro rl' r \<le> rankOf ro rl v"
    and "ranked L ro rl s \<Longrightarrow> a < length (objs s) \<Longrightarrow> getProp (objAt s a) ''ref'' = Undefined \<Longrightarrow>
           ro a \<le> n \<Longrightarrow>
           \<exists>s' rl'. resolveAttrs L n a ks s = Some s' \<and> ranked L ro rl' s'
             \<and> (\<forall>b < length (lists s). rl' b = rl b)"
    and "ranked L ro rl s \<Longrightarrow> c < length (lists s) \<Longrightarrow> list_all (below s ro rl (rl c)) xs \<Longrightarrow>
           rl c \<le> n \<Longrightarrow>
           \<exists>s' rl'. resolveItems L n c xs s = Some s' \<and> ranked L ro rl' s'
             \<and> (\<forall>b < length (lists s). rl' b = rl b)"
proof (induction L n v s and L n a ks s and L n c xs s arbitrary: rl and rl and rl
    rule: resolve_resolveAttrs_resolveItems.induct)
  case (1 L thing e)
  then show ?case by simp
next
  case (2 L n a s)
  let ?c = "length (lists s)"
  let ?s1 = "s\<lparr>lists := lists s @ [\<lparr>items = [], lprops = []\<rparr>]\<rparr>"
  let ?rl1 = "rl(?c := rl a)"
  have al: "(?c, ?s1) = allocList s" by (simp add: allocList_def)
  from "2.prems"(2) have a: "a < length (lists s)" by (simp add: allocated_def)
  from "2.prems"(3) have bound: "rl a \<le> n" by (simp add: rankOf_def)
  have r1: "ranked L ro ?rl1 ?s1" using "2.prems"(1) by (rule ranked_grow)
  have ext1: "\<forall>b < length (lists s). ?rl1 b = rl b" by simp
  have "list_all (below s ro rl (rl a)) (items (listAt s a))"
    using "2.prems"(1) a by (rule ranked_item)
  then have its: "list_all (below ?s1 ro ?rl1 (?rl1 ?c)) (items (listAt s a))"
    using ext1 by (auto simp: list_all_iff intro: below_mono)
  have c1: "?c < length (lists ?s1)" by simp
  have b1: "?rl1 ?c \<le> n" using bound by simp
  from "2.IH" [OF al r1 c1 its b1] obtain s' rl' where
    run: "resolveItems L n ?c (items (listAt s a)) ?s1 = Some s'"
    and rk: "ranked L ro rl' s'"
    and ext: "\<forall>b < length (lists ?s1). rl' b = ?rl1 b"
    by blast
  have res: "resolve L (Suc n) (Lst a) s = Some (Lst ?c, s')"
    using run by (simp add: allocList_def)
  have "length (lists ?s1) \<le> length (lists s')"
    using resolve_frame(3) [OF run] by (rule frame_length)
  then have "allocated s' (Lst ?c)" by (simp add: allocated_def)
  moreover from ext have "rl' ?c = rl a" by simp
  then have "rankOf ro rl' (Lst ?c) \<le> rankOf ro rl (Lst a)" by (simp add: rankOf_def)
  moreover from ext have "\<forall>b < length (lists s). rl' b = rl b" by simp
  ultimately show ?case using res rk by blast
next
  case (3 L n a s)
  show ?case
  proof (cases "getProp (objAt s a) ''ref'' = Undefined")
    case True
    have "\<exists>s' rl'. resolveAttrs L n a (map fst (objAt s a)) s = Some s' \<and> ranked L ro rl' s'
             \<and> (\<forall>b < length (lists s). rl' b = rl b)"
    proof (cases "a < length (objs s)")
      case inside: True
      from "3.prems"(3) have "ro a \<le> n" by (simp add: rankOf_def)
      with "3.IH"(1) [OF True "3.prems"(1) inside True] show ?thesis .
    next
      case False
      then have "objAt s a = []" by (simp add: objAt_def)
      with "3.prems"(1) show ?thesis by auto
    qed
    then obtain s' rl' where run: "resolveAttrs L n a (map fst (objAt s a)) s = Some s'"
      and rk: "ranked L ro rl' s'" and ext: "\<forall>b < length (lists s). rl' b = rl b"
      by blast
    from run True have "resolve L (Suc n) (Obj a) s = Some (Obj a, s')" by simp
    moreover have "allocated s' (Obj a)" by (simp add: allocated_def)
    moreover have "rankOf ro rl' (Obj a) \<le> rankOf ro rl (Obj a)" by (simp add: rankOf_def)
    ultimately show ?thesis using rk ext by blast
  next
    case False
    let ?next = "getProp (ctx s) (toString L (getProp (objAt s a) ''ref''))"
    have alloc: "allocated s ?next" using "3.prems"(1) by (rule ranked_ctx)
    have lower: "rankOf ro rl ?next < ro a" using "3.prems"(1) False by (rule ranked_ref)
    with "3.prems"(3) have "rankOf ro rl ?next < n" by (simp add: rankOf_def)
    from "3.IH"(2) [OF False "3.prems"(1) alloc this] obtain r s' rl' where
      run: "resolve L n ?next s = Some (r, s')"
      and rest: "ranked L ro rl' s'" "\<forall>b < length (lists s). rl' b = rl b" "allocated s' r"
      and le: "rankOf ro rl' r \<le> rankOf ro rl ?next"
      by blast
    from run False have "resolve L (Suc n) (Obj a) s = Some (r, s')" by simp
    moreover from le lower have "rankOf ro rl' r \<le> rankOf ro rl (Obj a)" by (simp add: rankOf_def)
    ultimately show ?thesis using rest by blast
  qed
next
  case (10 L n a e)
  then show ?case by auto
next
  case (11 L n a i rest s)
  show ?case
  proof (cases "i = ''_meta''")
    case True
    with "11.IH"(3) [OF _ "11.prems"] show ?thesis by simp
  next
    case False
    let ?x = "getProp (objAt s a) i"
    from "11.prems"(1,2,3) False have bx: "below s ro rl (ro a) ?x" by (rule ranked_attr)
    then have ax: "allocated s ?x" and rx: "rankOf ro rl ?x < n"
      using "11.prems"(4) by (simp_all add: below_def)
    from "11.IH"(1) [OF False "11.prems"(1) ax rx] obtain r1 s1 rl1 where
      run1: "resolve L n ?x s = Some (r1, s1)"
      and rk1: "ranked L ro rl1 s1"
      and ext1: "\<forall>b < length (lists s). rl1 b = rl b"
      and a1: "allocated s1 r1"
      and le1: "rankOf ro rl1 r1 \<le> rankOf ro rl ?x"
      by blast
    have f1: "frame (\<lambda>b. True) s s1" using run1 by (rule resolve_frame(1))
    then have in1: "a < length (objs s1)" and plain1: "getProp (objAt s1 a) ''ref'' = Undefined"
      using "11.prems"(2,3) by (simp_all add: frame_def)
    have b1: "below s1 ro rl1 (ro a) r1"
      using a1 le1 bx by (simp add: below_def)
    have keep: "i = ''ref'' \<longrightarrow> r1 = Undefined"
      using run1 "11.prems"(3) by (auto dest: resolve_Undefined)
    let ?s2 = "setAttr a i r1 s1"
    have rk2: "ranked L ro rl1 ?s2"
      using rk1 in1 plain1 False b1 keep by (rule ranked_setAttr)
    have in2: "a < length (objs ?s2)" using in1 by simp
    have plain2: "getProp (objAt ?s2 a) ''ref'' = Undefined"
      using plain1 in1 keep by simp
    from "11.IH"(2) [OF False run1 refl rk2 in2 plain2 "11.prems"(4)] obtain s' rl' where
      run2: "resolveAttrs L n a rest ?s2 = Some s'"
      and rk: "ranked L ro rl' s'"
      and ext2: "\<forall>b < length (lists ?s2). rl' b = rl1 b"
      by blast
    have "length (lists s) \<le> length (lists ?s2)"
      using f1 by (simp add: frame_def)
    with ext1 ext2 have "\<forall>b < length (lists s). rl' b = rl b" by simp
    moreover have "resolveAttrs L n a (i # rest) s = Some s'"
      using False run1 run2 by simp
    ultimately show ?thesis using rk by blast
  qed
next
  case (12 L n c e)
  then show ?case by auto
next
  case (13 L n c item rest s)
  from "13.prems"(3) have bi: "below s ro rl (rl c) item"
    and brest: "list_all (below s ro rl (rl c)) rest"
    by simp_all
  then have ai: "allocated s item" and ri: "rankOf ro rl item < n"
    using "13.prems"(4) by (simp_all add: below_def)
  from "13.IH"(1) [OF "13.prems"(1) ai ri] obtain r1 s1 rl1 where
    run1: "resolve L n item s = Some (r1, s1)"
    and rk1: "ranked L ro rl1 s1"
    and ext1: "\<forall>b < length (lists s). rl1 b = rl b"
    and a1: "allocated s1 r1"
    and le1: "rankOf ro rl1 r1 \<le> rankOf ro rl item"
    by blast
  have f1: "frame (\<lambda>b. True) s s1" using run1 by (rule resolve_frame(1))
  then have len1: "length (lists s) \<le> length (lists s1)" by (rule frame_length)
  with "13.prems"(2) have c1: "c < length (lists s1)" by simp
  from ext1 "13.prems"(2) have same: "rl1 c = rl c" by simp
  have b1: "below s1 ro rl1 (rl1 c) r1"
    using a1 le1 bi by (simp add: below_def same)
  let ?s2 = "setItems c (items (listAt s1 c) @ [r1]) s1"
  have rk2: "ranked L ro rl1 ?s2"
    using rk1 c1 b1 by (rule ranked_setItems)
  have c2: "c < length (lists ?s2)" using c1 by simp
  have len2: "length (lists s) \<le> length (lists ?s2)" using len1 by simp
  have rest2: "list_all (below ?s2 ro rl1 (rl1 c)) rest"
    using brest len2 ext1 by (auto simp: list_all_iff same intro: below_mono)
  have bound: "rl1 c \<le> n" using "13.prems"(4) by (simp add: same)
  from "13.IH"(2) [OF run1 refl rk2 c2 rest2 bound] obtain s' rl' where
    run2: "resolveItems L n c rest ?s2 = Some s'"
    and rk: "ranked L ro rl' s'"
    and ext2: "\<forall>b < length (lists ?s2). rl' b = rl1 b"
    by blast
  from ext1 ext2 len2 have "\<forall>b < length (lists s). rl' b = rl b" by simp
  moreover have "resolveItems L n c (item # rest) s = Some s'"
    using run1 run2 by simp
  ultimately show ?case using rk by blast
qed (auto simp: allocated_def)

subsection \<open>Resolving a list\<close>




subsection \<open>Invocation\<close>




subsection \<open>What a list assignment passes to the operation\<close>

text \<open>
  The run of a list assignment on a list that is there.
\<close>

lemma list_assignment_run:
  assumes cur: "evaluateVariable assignee e = Inr cur"
    and lst: "val cur = Lst l"
    and alloc: "l < length (lists e)"
    and op: "listMethod L operation = Some f"
    and item: "evaluateValue node e = Inr itemEval"
    and addressable: "ref itemEval \<noteq> Undefined"
  shows "\<exists>r. interpretAst L n (ListAssignment operation node assignee) e = Some (Inr r)
           \<and> objAt r (length (objs e)) = [(''ref'', ref itemEval)]
           \<and> items (listAt r l) = f (Obj (length (objs e))) (items (listAt e l))
           \<and> ret r = Null
           \<and> length (lists r) = length (lists e)"
proof -
  let ?w = "length (objs e)"
  let ?e1 = "e\<lparr>objs := objs e @ [[(''ref'', ref itemEval)]]\<rparr>"
  let ?e2 = "setItems l (f (Obj ?w) (items (listAt e l))) ?e1"
  have wrap: "refOrVal itemEval e = (Obj ?w, ?e1)"
    using addressable by (simp add: refOrVal_def allocObj_def)
  have call: "invokeOperation L (Lst l) operation (Obj ?w) ?e1 = Some (Inr ?e2)"
    using op by (simp add: invokeOperation_list)
  have "\<exists>e3. assign ?e2 assignee (Lst l) = Inr e3 \<and> objAt e3 ?w = [(''ref'', ref itemEval)]
          \<and> items (listAt e3 l) = f (Obj ?w) (items (listAt e l))
          \<and> length (lists e3) = length (lists e)"
  proof (cases assignee)
    case (Scalar x)
    then show ?thesis using alloc by simp
  next
    case (Object ob sl)
    with cur lst have base: "getMember e (getProp (ctx e) ob) sl = Inr (Lst l)"
      by (auto split: if_splits sum.splits)
    then consider (inObject) a where "getProp (ctx e) ob = Obj a" "a < length (objs e)"
      | (inList) a where "getProp (ctx e) ob = Lst a"
      by (cases "getProp (ctx e) ob") (auto simp: objAt_def split: if_splits)
    then show ?thesis
    proof cases
      case inObject
      then show ?thesis using Object alloc by simp
    next
      case inList
      have "assign ?e2 assignee (Lst l) =
          Inr (?e2\<lparr>lists := (lists ?e2)[a := (listAt ?e2 a)\<lparr>lprops :=
                  AList.update sl (Lst l) (lprops (listAt ?e2 a))\<rparr>]\<rparr>)"
        using Object inList by simp
      moreover have "items (listAt (?e2\<lparr>lists := (lists ?e2)[a := (listAt ?e2 a)\<lparr>lprops :=
                  AList.update sl (Lst l) (lprops (listAt ?e2 a))\<rparr>]\<rparr>) l)
            = items (listAt ?e2 l)"
        by (rule items_listAt_lprops_update)
      moreover have "items (listAt ?e2 l) = f (Obj ?w) (items (listAt e l))"
        using alloc by simp
      moreover have "objAt (?e2\<lparr>lists := (lists ?e2)[a := (listAt ?e2 a)\<lparr>lprops :=
                  AList.update sl (Lst l) (lprops (listAt ?e2 a))\<rparr>]\<rparr>) ?w
            = [(''ref'', ref itemEval)]"
        by simp
      moreover have "length (lists (?e2\<lparr>lists := (lists ?e2)[a := (listAt ?e2 a)\<lparr>lprops :=
                  AList.update sl (Lst l) (lprops (listAt ?e2 a))\<rparr>]\<rparr>)) = length (lists e)"
        by simp
      ultimately show ?thesis by simp
    qed
  qed
  then obtain e3 where e3: "assign ?e2 assignee (Lst l) = Inr e3"
      "objAt e3 ?w = [(''ref'', ref itemEval)]"
      "items (listAt e3 l) = f (Obj ?w) (items (listAt e l))"
      "length (lists e3) = length (lists e)"
    by blast
  have "interpretAst L n (ListAssignment operation node assignee) e = Some (Inr (nreturn e3 Undefined))"
    using cur lst item wrap call e3(1) by simp
  moreover have "objAt (nreturn e3 Undefined) ?w = [(''ref'', ref itemEval)]"
      "items (listAt (nreturn e3 Undefined) l) = f (Obj ?w) (items (listAt e l))"
      "ret (nreturn e3 Undefined) = Null"
      "length (lists (nreturn e3 Undefined)) = length (lists e)"
    using e3(2,3,4) by (simp_all add: nreturn_def)
  ultimately show ?thesis by blast
qed



end
